theory Spec2Isabelle
  imports Complex_Main
begin

section \<open>Strings and spreadsheet cells\<close>

text \<open>
  Material codes, units and period names are Python strings; they are taken here as
  ASCII strings. Quantities are Python floats; the development reads them as real
  numbers, so every statement about sums and products below is a statement of exact
  arithmetic and says nothing about rounding, overflow or underflow.
\<close>

type_synonym code = string
type_synonym month = string

text \<open>The ASCII characters for which \<^verbatim>\<open>str.isspace\<close> holds; \<^verbatim>\<open>str.strip()\<close> removes them at both ends.\<close>

definition is_space :: "char \<Rightarrow> bool" where
  "is_space c = (c \<in> set [CHR 0x09, CHR 0x0A, CHR 0x0B, CHR 0x0C, CHR 0x0D,
                           CHR 0x1C, CHR 0x1D, CHR 0x1E, CHR 0x1F, CHR 0x20])"

definition strip :: "string \<Rightarrow> string" where
  "strip s = rev (dropWhile is_space (rev (dropWhile is_space s)))"

definition upper_char :: "char \<Rightarrow> char" where
  "upper_char c =
     (case map_of (zip ''abcdefghijklmnopqrstuvwxyz'' ''ABCDEFGHIJKLMNOPQRSTUVWXYZ'') c of
        Some d \<Rightarrow> d | None \<Rightarrow> c)"

definition lower_char :: "char \<Rightarrow> char" where
  "lower_char c =
     (case map_of (zip ''ABCDEFGHIJKLMNOPQRSTUVWXYZ'' ''abcdefghijklmnopqrstuvwxyz'') c of
        Some d \<Rightarrow> d | None \<Rightarrow> c)"

definition upper :: "string \<Rightarrow> string" where
  "upper s = map upper_char s"

definition lower :: "string \<Rightarrow> string" where
  "lower s = map lower_char s"

text \<open>\<^verbatim>\<open>s.startswith("1")\<close>\<close>

fun startswith_1 :: "string \<Rightarrow> bool" where
  "startswith_1 [] = False"
| "startswith_1 (c # cs) = (c = CHR ''1'')"

text \<open>\<^verbatim>\<open>s.replace(",", ".")\<close>\<close>

definition replace_comma :: "string \<Rightarrow> string" where
  "replace_comma s = map (\<lambda>c. if c = CHR '','' then CHR ''.'' else c) s"

text \<open>
  Cells of a data frame. A cell of a code, unit or description column is read by the
  program through \<^verbatim>\<open>str\<close> and \<^verbatim>\<open>pd.isna\<close> only, so it is given here by its text
  (\<open>Text\<close>, for a numeric cell the text \<^verbatim>\<open>str\<close> gives it) or is \<open>Missing\<close> (NaN);
  \<^verbatim>\<open>str\<close> of a missing cell is the text \<^verbatim>\<open>nan\<close>. A quantity cell is missing, a number or
  a text.
\<close>

datatype cell = Missing | Text string

datatype qcell = NaN | Num real | Str string

fun cell_str :: "cell \<Rightarrow> string" where
  "cell_str Missing = ''nan''"
| "cell_str (Text s) = s"

text \<open>
  \<^verbatim>\<open>float(str(v).replace(",", "."))\<close> behind a \<^verbatim>\<open>pd.isna(v)\<close> guard. Python's \<^verbatim>\<open>float\<close> on
  a text is not part of the repository: it is the parameter \<open>pyfloat\<close>, \<open>None\<close> where
  \<^verbatim>\<open>float\<close> raises \<^verbatim>\<open>ValueError\<close>. A numeric cell converts to itself.
\<close>

fun to_float :: "(string \<Rightarrow> real option) \<Rightarrow> qcell \<Rightarrow> real option" where
  "to_float pyfloat NaN = None"
| "to_float pyfloat (Num x) = Some x"
| "to_float pyfloat (Str s) = pyfloat (replace_comma s)"

text \<open>
  A small instance of the parameter, for evaluating the model on examples: unsigned
  decimal numerals with an optional fraction. It is used by examples only.
\<close>

definition digit_val :: "char \<Rightarrow> nat option" where
  "digit_val c = map_of (zip ''0123456789'' [0, 1, 2, 3, 4, 5, 6, 7, 8, 9]) c"

fun digits_val :: "string \<Rightarrow> nat \<Rightarrow> nat option" where
  "digits_val [] acc = Some acc"
| "digits_val (c # cs) acc =
     (case digit_val c of None \<Rightarrow> None | Some d \<Rightarrow> digits_val cs (10 * acc + d))"

definition decimal_float :: "string \<Rightarrow> real option" where
  "decimal_float s =
     (let ip = takeWhile (\<lambda>c. c \<noteq> CHR ''.'') s;
          fp = drop 1 (dropWhile (\<lambda>c. c \<noteq> CHR ''.'') s)
      in if ip = [] \<and> fp = [] then None
         else case (digits_val ip 0, digits_val fp 0) of
                (Some i, Some f) \<Rightarrow> Some (real i + real f / 10 ^ length fp)
              | _ \<Rightarrow> None)"

section \<open>Unit conversion\<close>

text \<open>
  \<^verbatim>\<open>convert_quantity\<close> (identical in the three variants of the engine):
  the unit is trimmed and upper-cased; gram units are scaled by 0.001 into KG, every
  other unit is returned as cleaned, with the quantity as given.
\<close>

definition convert_quantity :: "real \<Rightarrow> string \<Rightarrow> real \<times> string" where
  "convert_quantity quantity uom =
     (let uom_clean = upper (strip uom) in
      if uom_clean \<in> set [''G'', ''GR'', ''GRAM'', ''GRAMS'']
      then (quantity * 0.001, ''KG'')
      else (quantity, uom_clean))"


section \<open>Cleaning the BOM sheet\<close>

text \<open>
  A row of the BOM sheet: the parent, component, quantity and unit columns that
  \<^verbatim>\<open>prepare_bom_columns\<close> identified, and the cells of every other column. The model is
  of a sheet that has a unit column (\<^verbatim>\<open>col_uom\<close> is not \<^verbatim>\<open>None\<close>).
\<close>

record bom_row =
  row_parent :: cell
  row_component :: cell
  row_qty :: qcell
  row_uom :: cell
  row_other :: "cell list"

text \<open>\<^verbatim>\<open>dropna(how='all')\<close>: a row is dropped when every cell of it is missing.\<close>

definition all_missing :: "bom_row \<Rightarrow> bool" where
  "all_missing r =
     (row_parent r = Missing \<and> row_component r = Missing \<and> row_qty r = NaN
      \<and> row_uom r = Missing \<and> (\<forall>c \<in> set (row_other r). c = Missing))"

text \<open>\<^verbatim>\<open>dropna(subset=[col_parent, col_component, col_qty])\<close>\<close>

definition essential_missing :: "bom_row \<Rightarrow> bool" where
  "essential_missing r =
     (row_parent r = Missing \<or> row_component r = Missing \<or> row_qty r = NaN)"

text \<open>
  \<^verbatim>\<open>drop_duplicates(subset=..., keep='first')\<close> goes through the rows from the top and
  keeps a row when no row before it has the same key; \<^verbatim>\<open>keep='last'\<close> keeps a row
  when no row after it has the same key. The rows kept stay in their order. Missing
  cells count as equal to each other, as pandas has it.
\<close>

fun drop_duplicates_seen :: "('a \<Rightarrow> 'k) \<Rightarrow> 'k list \<Rightarrow> 'a list \<Rightarrow> 'a list" where
  "drop_duplicates_seen key seen [] = []"
| "drop_duplicates_seen key seen (x # xs) =
     (if key x \<in> set seen then drop_duplicates_seen key seen xs
      else x # drop_duplicates_seen key (key x # seen) xs)"

definition drop_duplicates_first :: "('a \<Rightarrow> 'k) \<Rightarrow> 'a list \<Rightarrow> 'a list" where
  "drop_duplicates_first key xs = drop_duplicates_seen key [] xs"

fun drop_duplicates_last :: "('a \<Rightarrow> 'k) \<Rightarrow> 'a list \<Rightarrow> 'a list" where
  "drop_duplicates_last key [] = []"
| "drop_duplicates_last key (x # xs) =
     (if key x \<in> set (map key xs) then drop_duplicates_last key xs
      else x # drop_duplicates_last key xs)"

definition key_full :: "bom_row \<Rightarrow> cell \<times> cell \<times> qcell \<times> cell" where
  "key_full r = (row_parent r, row_component r, row_qty r, row_uom r)"

definition key_edge :: "bom_row \<Rightarrow> cell \<times> cell" where
  "key_edge r = (row_parent r, row_component r)"

text \<open>\<^verbatim>\<open>clean_bom_data\<close>: the four steps, in the order of the source.\<close>

definition clean_bom_data :: "bom_row list \<Rightarrow> bom_row list" where
  "clean_bom_data rows =
     (let df1 = filter (\<lambda>r. \<not> all_missing r) rows;
          df2 = filter (\<lambda>r. \<not> essential_missing r) df1;
          df3 = drop_duplicates_first key_full df2;
          df4 = drop_duplicates_last key_edge df3
      in df4)"

section \<open>Building the relations\<close>

text \<open>
  \<^verbatim>\<open>self.relations\<close> is a \<^verbatim>\<open>defaultdict(list)\<close>: parent code to the list of
  (component, quantity) pairs, in insertion order. It is an association list here; a key
  is stored once.
\<close>

type_synonym edges = "(code \<times> real) list"
type_synonym relations = "(code \<times> edges) list"

text \<open>\<^verbatim>\<open>item in self.relations\<close> and \<^verbatim>\<open>self.relations[item]\<close> for a key that is there.\<close>

definition in_relations :: "relations \<Rightarrow> code \<Rightarrow> bool" where
  "in_relations rels item = (map_of rels item \<noteq> None)"

definition get_relations :: "relations \<Rightarrow> code \<Rightarrow> edges" where
  "get_relations rels item = (case map_of rels item of Some es \<Rightarrow> es | None \<Rightarrow> [])"

text \<open>\<^verbatim>\<open>self.relations[parent].append((component, converted_qty))\<close>\<close>

fun append_relation :: "relations \<Rightarrow> code \<Rightarrow> code \<times> real \<Rightarrow> relations" where
  "append_relation [] parent e = [(parent, [e])]"
| "append_relation ((k, es) # rest) parent e =
     (if k = parent then (k, es @ [e]) # rest else (k, es) # append_relation rest parent e)"

text \<open>
  What the second loop of \<^verbatim>\<open>build_bom_relations\<close> does with one row of the cleaned
  sheet: it skips the row without a word (a blank or \<^verbatim>\<open>nan\<close> code, a missing quantity),
  warns and skips it (the quantity does not convert to a float), or converts the
  quantity by the row's unit and stores the edge when the result is positive.
\<close>

datatype row_outcome = Skipped | Warned code code | Edge code code real | Not_Positive

definition row_outcome_of :: "(string \<Rightarrow> real option) \<Rightarrow> bom_row \<Rightarrow> row_outcome" where
  "row_outcome_of pyfloat row =
     (let parent = strip (cell_str (row_parent row));
          component = strip (cell_str (row_component row))
      in if parent = [] \<or> component = [] \<or> lower parent = ''nan'' \<or> lower component = ''nan''
         then Skipped
         else if row_qty row = NaN then Skipped
         else case to_float pyfloat (row_qty row) of
                None \<Rightarrow> Warned parent component
              | Some qty \<Rightarrow>
                  (let converted_qty =
                         (case row_uom row of
                            Missing \<Rightarrow> qty
                          | Text u \<Rightarrow> fst (convert_quantity qty (strip u)))
                   in if converted_qty > 0 then Edge parent component converted_qty
                      else Not_Positive))"

record build_state =
  relations_of :: relations
  warnings_of :: "(code \<times> code) list"

definition build_row :: "(string \<Rightarrow> real option) \<Rightarrow> build_state \<Rightarrow> bom_row \<Rightarrow> build_state" where
  "build_row pyfloat st row =
     (case row_outcome_of pyfloat row of
        Skipped \<Rightarrow> st
      | Not_Positive \<Rightarrow> st
      | Warned parent component \<Rightarrow> st\<lparr>warnings_of := warnings_of st @ [(parent, component)]\<rparr>
      | Edge parent component q \<Rightarrow>
          st\<lparr>relations_of := append_relation (relations_of st) parent (component, q)\<rparr>)"

definition build_loop :: "(string \<Rightarrow> real option) \<Rightarrow> build_state \<Rightarrow> bom_row list \<Rightarrow> build_state" where
  "build_loop pyfloat st rows = foldl (build_row pyfloat) st rows"

text \<open>
  \<^verbatim>\<open>build_bom_relations\<close> on a fresh engine: the sheet is cleaned, then the loop runs
  over the cleaned rows. (The first loop of the source fills the description and unit
  dictionaries and does not touch the relations.)
\<close>

definition build_bom_relations :: "(string \<Rightarrow> real option) \<Rightarrow> bom_row list \<Rightarrow> build_state" where
  "build_bom_relations pyfloat rows =
     build_loop pyfloat \<lparr>relations_of = [], warnings_of = []\<rparr> (clean_bom_data rows)"

section \<open>Material types\<close>

text \<open>\<^verbatim>\<open>get_material_type\<close> and \<^verbatim>\<open>is_raw_material\<close> of the second variant of the engine.\<close>

datatype material_type = Finished | Manufactured | Raw | Unknown

definition get_material_type :: "string \<Rightarrow> material_type" where
  "get_material_type material_code =
     (let material_str = strip material_code
      in if material_str = [] \<or> material_str = ''nan'' then Unknown
         else let first_char = hd material_str
              in if first_char = CHR ''5'' then Finished
                 else if first_char = CHR ''4'' then Manufactured
                 else if first_char = CHR ''1'' then Raw
                 else Unknown)"

definition is_raw_material :: "string \<Rightarrow> bool" where
  "is_raw_material material_code = (get_material_type material_code = Raw)"

section \<open>Explosion\<close>

text \<open>
  A Python dictionary from codes to floats, in insertion order.
  \<^verbatim>\<open>d[k] += v\<close> on a \<^verbatim>\<open>defaultdict(float)\<close> adds to the entry of \<open>k\<close>, which starts
  from 0.0 when \<open>k\<close> is new. \<open>lookup0\<close> reads an entry, 0 for a key that is absent.
\<close>

fun add_to :: "('k \<times> real) list \<Rightarrow> 'k \<Rightarrow> real \<Rightarrow> ('k \<times> real) list" where
  "add_to [] k v = [(k, 0 + v)]"
| "add_to ((k', w) # rest) k v =
     (if k' = k then (k', w + v) # rest else (k', w) # add_to rest k v)"

definition lookup0 :: "('k \<times> real) list \<Rightarrow> 'k \<Rightarrow> real" where
  "lookup0 d k = (case map_of d k of Some v \<Rightarrow> v | None \<Rightarrow> 0)"

text \<open>
  The inner loop of \<^verbatim>\<open>explode_unit\<close>:
  \<^verbatim>\<open>for material, quantity in sub_map.items(): total[material] += quantity * qty\<close>
  The product and the sum are those of the real numbers, which are exact;
  \<open>accumulate_rounded\<close> below has the rounding of the floats.
\<close>

fun accumulate :: "(code \<times> real) list \<Rightarrow> (code \<times> real) list \<Rightarrow> real \<Rightarrow> (code \<times> real) list" where
  "accumulate totals [] qty = totals"
| "accumulate totals ((material, quantity) # rest) qty =
     accumulate (add_to totals material (quantity * qty)) rest qty"

text \<open>
  The outer loop, \<^verbatim>\<open>for comp, qty in self.relations[item]\<close>, over the recursive call
  \<open>self\<close>; a call that does not return ends the loop without a result.
\<close>

fun explode_edges ::
  "(code \<Rightarrow> (code \<times> real) list option) \<Rightarrow> edges \<Rightarrow> (code \<times> real) list
   \<Rightarrow> (code \<times> real) list option" where
  "explode_edges self [] totals = Some totals"
| "explode_edges self ((component, qty) # rest) totals =
     (case self component of
        None \<Rightarrow> None
      | Some sub_map \<Rightarrow> explode_edges self rest (accumulate totals sub_map qty))"

text \<open>
  \<^verbatim>\<open>explode_unit\<close>. The source recurses with no guard against a cycle of the BOM, so the
  recursion is bounded here by a depth \<open>n\<close>: the result is \<open>None\<close> when the call
  needs more than \<open>n\<close> nested calls (in Python, a call that ends in
  \<^verbatim>\<open>RecursionError\<close> or never ends) and \<open>Some\<close> of the dictionary returned
  otherwise. The test for a raw material is a parameter: the first and third variant of
  the engine test \<^verbatim>\<open>item.startswith("1")\<close>, the second
  \<^verbatim>\<open>self.is_raw_material(item)\<close>. The memoisation by \<^verbatim>\<open>lru_cache\<close> does not change what
  a call returns while the relations stay as they are, and is left out.
\<close>

primrec explode_with ::
  "(string \<Rightarrow> bool) \<Rightarrow> nat \<Rightarrow> relations \<Rightarrow> code \<Rightarrow> (code \<times> real) list option" where
  "explode_with raw 0 rels item_code = None"
| "explode_with raw (Suc n) rels item_code =
     (let item = strip item_code
      in if raw item \<or> \<not> in_relations rels item \<or> get_relations rels item = []
         then Some [(item, 1)]
         else explode_edges (explode_with raw n rels) (get_relations rels item) [])"

definition explode_unit :: "nat \<Rightarrow> relations \<Rightarrow> code \<Rightarrow> (code \<times> real) list option" where
  "explode_unit = explode_with startswith_1"

definition explode_unit_typed :: "nat \<Rightarrow> relations \<Rightarrow> code \<Rightarrow> (code \<times> real) list option" where
  "explode_unit_typed = explode_with is_raw_material"






section \<open>Requirements of the plan\<close>

text \<open>
  A row of the plan: the cell of the first column and the cells of the period columns.
  The period columns (\<^verbatim>\<open>month_cols\<close>, the columns after the code and the optional
  description) are given by their names, which pandas keeps distinct when it reads a
  sheet. \<^verbatim>\<open>results\<close> is a dictionary of dictionaries, material to period to quantity;
  the set \<^verbatim>\<open>material_codes\<close> of the source always holds the keys of \<^verbatim>\<open>results\<close> and
  is left out.
\<close>

record plan_row =
  plan_code :: cell
  plan_cells :: "month \<Rightarrow> qcell"

type_synonym results = "(code \<times> (month \<times> real) list) list"

text \<open>\<^verbatim>\<open>results[material][month] += v\<close>\<close>

fun add_result :: "results \<Rightarrow> code \<Rightarrow> month \<Rightarrow> real \<Rightarrow> results" where
  "add_result [] material month v = [(material, [(month, 0 + v)])]"
| "add_result ((k, d) # rest) material month v =
     (if k = material then (k, add_to d month v) # rest
      else (k, d) # add_result rest material month v)"

text \<open>\<^verbatim>\<open>results[material].get(month, 0.0)\<close>, as the output table reads it.\<close>

definition requirement :: "results \<Rightarrow> code \<Rightarrow> month \<Rightarrow> real" where
  "requirement res material month =
     (case map_of res material of Some d \<Rightarrow> lookup0 d month | None \<Rightarrow> 0)"

text \<open>
  \<^verbatim>\<open>for raw_material, per_unit in bom_map.items():
    results[raw_material][month] += planned * per_unit\<close>
\<close>

fun add_bom_map :: "results \<Rightarrow> (code \<times> real) list \<Rightarrow> month \<Rightarrow> real \<Rightarrow> results" where
  "add_bom_map res [] month planned = res"
| "add_bom_map res ((raw_material, per_unit) # rest) month planned =
     add_bom_map (add_result res raw_material month (planned * per_unit)) rest month planned"

text \<open>The loop over the period columns of one plan row in \<^verbatim>\<open>calculate_requirements\<close>.\<close>

fun months_loop ::
  "(string \<Rightarrow> real option) \<Rightarrow> (month \<Rightarrow> qcell) \<Rightarrow> (code \<times> real) list \<Rightarrow> month list
   \<Rightarrow> results \<Rightarrow> results" where
  "months_loop pyfloat cells bom_map [] res = res"
| "months_loop pyfloat cells bom_map (month # rest) res =
     (case to_float pyfloat (cells month) of
        None \<Rightarrow> months_loop pyfloat cells bom_map rest res
      | Some planned \<Rightarrow>
          if planned = 0 then months_loop pyfloat cells bom_map rest res
          else months_loop pyfloat cells bom_map rest (add_bom_map res bom_map month planned))"

text \<open>
  The test of \<^verbatim>\<open>calculate_requirements\<close> on the code of a plan row:
  \<^verbatim>\<open>if not fg or fg.lower() in ['nan', 'none', '']: continue\<close>
\<close>

definition plan_code_skipped :: "string \<Rightarrow> bool" where
  "plan_code_skipped fg = (fg = [] \<or> lower fg \<in> set [''nan'', ''none'', []])"

text \<open>
  The loop of \<^verbatim>\<open>calculate_requirements\<close> over the plan rows (the same in the three
  variants), with the explosion as a parameter. It has no result when an explosion has
  none.
\<close>

fun plan_loop ::
  "(code \<Rightarrow> (code \<times> real) list option) \<Rightarrow> (string \<Rightarrow> real option) \<Rightarrow> month list
   \<Rightarrow> plan_row list \<Rightarrow> results \<Rightarrow> results option" where
  "plan_loop explode pyfloat month_cols [] res = Some res"
| "plan_loop explode pyfloat month_cols (prow # rest) res =
     (let fg = strip (cell_str (plan_code prow))
      in if plan_code_skipped fg then plan_loop explode pyfloat month_cols rest res
         else case explode fg of
                None \<Rightarrow> None
              | Some bom_map \<Rightarrow>
                  plan_loop explode pyfloat month_cols rest
                    (months_loop pyfloat (plan_cells prow) bom_map month_cols res))"

definition calculate_requirements ::
  "nat \<Rightarrow> (string \<Rightarrow> real option) \<Rightarrow> relations \<Rightarrow> month list \<Rightarrow> plan_row list
   \<Rightarrow> results option" where
  "calculate_requirements n pyfloat rels month_cols plan =
     plan_loop (explode_unit n rels) pyfloat month_cols plan []"

section \<open>Requirements at all levels\<close>

text \<open>
  \<^verbatim>\<open>_calculate_component_requirements\<close> (second and third variant): the quantity of a
  parent is pushed down every edge, with no guard against a cycle; the depth of the
  recursion is bounded by \<open>n\<close> as for the explosion. \<open>push_edges\<close> is its loop
  \<^verbatim>\<open>for comp, comp_qty in self.relations[parent]\<close> over the recursive call \<open>self\<close>.
\<close>

fun push_edges ::
  "(code \<Rightarrow> real \<Rightarrow> results \<Rightarrow> results option) \<Rightarrow> real \<Rightarrow> month \<Rightarrow> edges \<Rightarrow> results
   \<Rightarrow> results option" where
  "push_edges self parent_qty month [] res = Some res"
| "push_edges self parent_qty month ((component, comp_qty) # rest) res =
     (let required_qty = parent_qty * comp_qty
      in case self component required_qty (add_result res component month required_qty) of
           None \<Rightarrow> None
         | Some res' \<Rightarrow> push_edges self parent_qty month rest res')"

primrec calculate_component_requirements ::
  "nat \<Rightarrow> relations \<Rightarrow> month \<Rightarrow> code \<Rightarrow> real \<Rightarrow> results \<Rightarrow> results option" where
  "calculate_component_requirements 0 rels month parent parent_qty res = None"
| "calculate_component_requirements (Suc n) rels month parent parent_qty res =
     (if \<not> in_relations rels parent then Some res
      else push_edges (calculate_component_requirements n rels month) parent_qty month
             (get_relations rels parent) res)"

text \<open>
  The loop over the period columns of one plan row in
  \<^verbatim>\<open>calculate_all_levels_requirements\<close>. The cell is compared with 0 before it is
  converted (\<^verbatim>\<open>pd.isna(planned_qty) or planned_qty == 0\<close>), which a text never equals.
\<close>

fun all_levels_months ::
  "nat \<Rightarrow> (string \<Rightarrow> real option) \<Rightarrow> relations \<Rightarrow> code \<Rightarrow> (month \<Rightarrow> qcell) \<Rightarrow> month list
   \<Rightarrow> results \<Rightarrow> results option" where
  "all_levels_months n pyfloat rels parent cells [] res = Some res"
| "all_levels_months n pyfloat rels parent cells (month # rest) res =
     (if cells month = NaN \<or> cells month = Num 0
      then all_levels_months n pyfloat rels parent cells rest res
      else case to_float pyfloat (cells month) of
             None \<Rightarrow> all_levels_months n pyfloat rels parent cells rest res
           | Some planned \<Rightarrow>
               (case calculate_component_requirements n rels month parent planned
                       (add_result res parent month planned) of
                  None \<Rightarrow> None
                | Some res' \<Rightarrow> all_levels_months n pyfloat rels parent cells rest res'))"

text \<open>
  The loop of \<^verbatim>\<open>calculate_all_levels_requirements\<close> over the plan rows. Its test on the
  code of a row is \<^verbatim>\<open>if not parent: continue\<close>.
\<close>

fun all_levels_loop ::
  "nat \<Rightarrow> (string \<Rightarrow> real option) \<Rightarrow> relations \<Rightarrow> month list \<Rightarrow> plan_row list
   \<Rightarrow> results \<Rightarrow> results option" where
  "all_levels_loop n pyfloat rels month_cols [] res = Some res"
| "all_levels_loop n pyfloat rels month_cols (row # rest) res =
     (let parent = strip (cell_str (plan_code row))
      in if parent = [] then all_levels_loop n pyfloat rels month_cols rest res
         else case all_levels_months n pyfloat rels parent (plan_cells row) month_cols res of
                None \<Rightarrow> None
              | Some res' \<Rightarrow> all_levels_loop n pyfloat rels month_cols rest res')"

definition calculate_all_levels_requirements ::
  "nat \<Rightarrow> (string \<Rightarrow> real option) \<Rightarrow> relations \<Rightarrow> month list \<Rightarrow> plan_row list
   \<Rightarrow> results option" where
  "calculate_all_levels_requirements n pyfloat rels month_cols plan =
     all_levels_loop n pyfloat rels month_cols plan []"

section \<open>Levels\<close>

text \<open>
  \<^verbatim>\<open>_get_material_level\<close> of the third variant. \<open>plan_codes\<close> is
  \<^verbatim>\<open>set(self.plan_df.iloc[:, 0].astype(str).str.strip())\<close>; the functions below take
  it as their argument \<open>plan\<close>.
\<close>

definition plan_codes :: "plan_row list \<Rightarrow> code list" where
  "plan_codes plan = map (\<lambda>row. strip (cell_str (plan_code row))) plan"

text \<open>
  The inner function \<^verbatim>\<open>find_level\<close> searches upwards with one set \<^verbatim>\<open>visited\<close> that
  every call adds to; the set is passed through the calls and returned. The two loops
  \<^verbatim>\<open>for parent, components in self.relations.items()\<close> and
  \<^verbatim>\<open>for comp, _ in components\<close> either return a level (\<open>Some\<close> level) or run to
  their end (\<open>None\<close>). The depth of the recursion is bounded by \<open>n\<close>: the outer
  \<open>None\<close> is a search that needs more than \<open>n\<close> nested calls.
\<close>

fun scan_components ::
  "(code \<Rightarrow> code list \<Rightarrow> (int \<times> code list) option) \<Rightarrow> code \<Rightarrow> code \<Rightarrow> edges \<Rightarrow> code list
   \<Rightarrow> (int option \<times> code list) option" where
  "scan_components self current_material parent [] visited = Some (None, visited)"
| "scan_components self current_material parent ((component, q) # rest) visited =
     (if component = current_material
      then case self parent visited of
             None \<Rightarrow> None
           | Some (parent_level, visited') \<Rightarrow>
               if parent_level \<ge> 0 then Some (Some (parent_level + 1), visited')
               else scan_components self current_material parent rest visited'
      else scan_components self current_material parent rest visited)"

fun scan_relations ::
  "(code \<Rightarrow> code list \<Rightarrow> (int \<times> code list) option) \<Rightarrow> code \<Rightarrow> relations \<Rightarrow> code list
   \<Rightarrow> (int option \<times> code list) option" where
  "scan_relations self current_material [] visited = Some (None, visited)"
| "scan_relations self current_material ((parent, components) # rest) visited =
     (case scan_components self current_material parent components visited of
        None \<Rightarrow> None
      | Some (Some level, visited') \<Rightarrow> Some (Some level, visited')
      | Some (None, visited') \<Rightarrow> scan_relations self current_material rest visited')"

primrec find_level ::
  "nat \<Rightarrow> relations \<Rightarrow> code list \<Rightarrow> code \<Rightarrow> code list \<Rightarrow> (int \<times> code list) option" where
  "find_level 0 rels plan current_material visited = None"
| "find_level (Suc n) rels plan current_material visited =
     (if current_material \<in> set visited then Some (- 1, visited)
      else let visited1 = current_material # visited
           in if current_material \<in> set plan then Some (1, visited1)
              else case scan_relations (find_level n rels plan) current_material rels visited1 of
                     None \<Rightarrow> None
                   | Some (Some level, visited') \<Rightarrow> Some (level, visited')
                   | Some (None, visited') \<Rightarrow> Some (- 1, visited'))"

definition get_material_level :: "nat \<Rightarrow> relations \<Rightarrow> code list \<Rightarrow> code \<Rightarrow> int option" where
  "get_material_level n rels plan material_code =
     (if material_code \<in> set plan then Some 0
      else case find_level n rels plan material_code [] of
             None \<Rightarrow> None
           | Some (level, visited) \<Rightarrow> Some (if level \<ge> 0 then level else 999))"

section \<open>The admission of an edge, in the words of the specification\<close>

text \<open>
  The conditions under which the specification lets a row of the cleaned sheet into the
  relations, written out for the comparison with \<open>row_outcome_of\<close>: the trimmed
  codes, the codes being there (not blank, not \<^verbatim>\<open>nan\<close> in any letter case), the
  quantity after conversion by the unit, and the two ways a row with codes ends: as an
  edge, or with a warning because the quantity does not convert to a float.
\<close>

definition parent_code :: "bom_row \<Rightarrow> code" where
  "parent_code r = strip (cell_str (row_parent r))"

definition component_code :: "bom_row \<Rightarrow> code" where
  "component_code r = strip (cell_str (row_component r))"

definition codes_present :: "bom_row \<Rightarrow> bool" where
  "codes_present r =
     (parent_code r \<noteq> [] \<and> lower (parent_code r) \<noteq> ''nan''
      \<and> component_code r \<noteq> [] \<and> lower (component_code r) \<noteq> ''nan'')"

definition converted_quantity :: "(string \<Rightarrow> real option) \<Rightarrow> bom_row \<Rightarrow> real option" where
  "converted_quantity pyfloat r =
     (case to_float pyfloat (row_qty r) of
        None \<Rightarrow> None
      | Some q \<Rightarrow> Some (case row_uom r of Missing \<Rightarrow> q | Text u \<Rightarrow> fst (convert_quantity q u)))"

definition enters_relations :: "(string \<Rightarrow> real option) \<Rightarrow> bom_row \<Rightarrow> bool" where
  "enters_relations pyfloat r =
     (codes_present r \<and> (case converted_quantity pyfloat r of None \<Rightarrow> False | Some q \<Rightarrow> q > 0))"

definition parse_fails :: "(string \<Rightarrow> real option) \<Rightarrow> bom_row \<Rightarrow> bool" where
  "parse_fails pyfloat r =
     (codes_present r \<and> row_qty r \<noteq> NaN \<and> to_float pyfloat (row_qty r) = None)"

text \<open>A row of text codes with a unit, for the examples.\<close>

definition bom :: "string \<Rightarrow> string \<Rightarrow> qcell \<Rightarrow> string \<Rightarrow> bom_row" where
  "bom p c q u =
     \<lparr>row_parent = Text p, row_component = Text c, row_qty = q, row_uom = Text u,
      row_other = []\<rparr>"

section \<open>Paths of the BOM, in the words of the specification\<close>

text \<open>
  The leaf policy of the specification: a code is a leaf when it has the prefix of a raw
  material, or has no entry in the relations, or has an empty list there.
\<close>

definition is_leaf :: "relations \<Rightarrow> code \<Rightarrow> bool" where
  "is_leaf rels item =
     (startswith_1 item \<or> \<not> in_relations rels item \<or> get_relations rels item = [])"

text \<open>
  The graph of the relations as the explosion walks it: an edge from a parent to each of
  its components, the component code trimmed as \<^verbatim>\<open>explode_unit\<close> trims it before it looks
  the code up (the codes that \<^verbatim>\<open>build_bom_relations\<close> stores are trimmed already).
\<close>

definition bom_graph :: "relations \<Rightarrow> (code \<times> code) set" where
  "bom_graph rels = {(p, strip c) |p c q. (c, q) \<in> set (get_relations rels p)}"

text \<open>
  A path from a code is the list of the positions of the edges it takes, one list of
  edges after the other, so that two edges of one parent to the same component are two
  paths. \<open>path_product\<close> follows a path: where the path ends in a leaf it gives the
  leaf and the product of the quantities on the edges, and nothing where the path leaves
  the relations or stops before a leaf. \<open>paths_to\<close> is the set of the paths from a
  code to a leaf, \<open>path_weight\<close> the product along a path.
\<close>

fun path_product :: "relations \<Rightarrow> code \<Rightarrow> nat list \<Rightarrow> (code \<times> real) option" where
  "path_product rels c [] = (if is_leaf rels (strip c) then Some (strip c, 1) else None)"
| "path_product rels c (i # js) =
     (if is_leaf rels (strip c) \<or> i \<ge> length (get_relations rels (strip c)) then None
      else case path_product rels (fst (get_relations rels (strip c) ! i)) js of
             None \<Rightarrow> None
           | Some (leaf, w) \<Rightarrow> Some (leaf, w * snd (get_relations rels (strip c) ! i)))"

definition paths_to :: "relations \<Rightarrow> code \<Rightarrow> code \<Rightarrow> nat list set" where
  "paths_to rels c m = {js. \<exists>w. path_product rels c js = Some (m, w)}"

definition path_weight :: "relations \<Rightarrow> code \<Rightarrow> nat list \<Rightarrow> real" where
  "path_weight rels c js = (case path_product rels c js of Some (leaf, w) \<Rightarrow> w | None \<Rightarrow> 0)"

text \<open>
  What claim C1 says of a call of depth \<open>n\<close> that returns \<open>r\<close>: the keys of
  \<open>r\<close> are the leaves some path reaches, and the quantity of a leaf is the sum of
  the products of its paths.
\<close>

definition explodes_to_paths :: "relations \<Rightarrow> code \<Rightarrow> nat \<Rightarrow> (code \<times> real) list \<Rightarrow> bool" where
  "explodes_to_paths rels c n r \<longleftrightarrow>
     explode_unit n rels c = Some r \<and> distinct (map fst r)
     \<and> (\<forall>m. finite (paths_to rels c m)
            \<and> (m \<in> fst ` set r \<longleftrightarrow> paths_to rels c m \<noteq> {})
            \<and> lookup0 r m = (\<Sum>js \<in> paths_to rels c m. path_weight rels c js))"

section \<open>The share of a plan row in the requirements\<close>

text \<open>
  What one row of the plan contributes to the total of a material in a period: the
  total that \<^verbatim>\<open>calculate_requirements\<close> gives for the plan that holds this row alone.
\<close>

definition row_contribution ::
  "nat \<Rightarrow> (string \<Rightarrow> real option) \<Rightarrow> relations \<Rightarrow> month list \<Rightarrow> plan_row \<Rightarrow> code \<Rightarrow> month
   \<Rightarrow> real" where
  "row_contribution n pyfloat rels month_cols prow material month =
     (case calculate_requirements n pyfloat rels month_cols [prow] of
        Some res \<Rightarrow> requirement res material month
      | None \<Rightarrow> 0)"

text \<open>
  The same share written out, for the proofs: the planned quantity of the period (0 for
  a cell that is missing or does not convert), times the quantity of the material per
  unit of the row's item, once for every time the period is listed.
\<close>

definition planned_of :: "(string \<Rightarrow> real option) \<Rightarrow> (month \<Rightarrow> qcell) \<Rightarrow> month \<Rightarrow> real" where
  "planned_of pyfloat cells month = (case to_float pyfloat (cells month) of None \<Rightarrow> 0 | Some q \<Rightarrow> q)"

definition per_unit_of :: "(code \<times> real) list \<Rightarrow> code \<Rightarrow> real" where
  "per_unit_of bom_map material = (\<Sum>e \<leftarrow> bom_map. if fst e = material then snd e else 0)"

definition row_share ::
  "(code \<Rightarrow> (code \<times> real) list option) \<Rightarrow> (string \<Rightarrow> real option) \<Rightarrow> month list \<Rightarrow> plan_row
   \<Rightarrow> code \<Rightarrow> month \<Rightarrow> real" where
  "row_share explode pyfloat month_cols prow material month =
     (let fg = strip (cell_str (plan_code prow))
      in if plan_code_skipped fg then 0
         else case explode fg of
                None \<Rightarrow> 0
              | Some bom_map \<Rightarrow>
                  real (count_list month_cols month) * planned_of pyfloat (plan_cells prow) month
                    * per_unit_of bom_map material)"

section \<open>Parent chains, in the words of the specification\<close>

text \<open>
  \<open>p\<close> is a parent of \<open>c\<close> when \<open>c\<close> is a component in the list of
  \<open>p\<close>. A parent chain is a list of codes in which each code is followed by one of
  its parents; a material reaches the plan in \<open>k\<close> hops when a chain of \<open>k\<close>
  steps leads from it to a code of the plan.
\<close>

definition is_parent :: "relations \<Rightarrow> code \<Rightarrow> code \<Rightarrow> bool" where
  "is_parent rels p c = (\<exists>components. (p, components) \<in> set rels \<and> c \<in> fst ` set components)"

fun parent_chain :: "relations \<Rightarrow> code list \<Rightarrow> bool" where
  "parent_chain rels [] = False"
| "parent_chain rels [x] = True"
| "parent_chain rels (x # y # zs) = (is_parent rels y x \<and> parent_chain rels (y # zs))"

definition reaches_plan :: "relations \<Rightarrow> code list \<Rightarrow> code \<Rightarrow> nat \<Rightarrow> bool" where
  "reaches_plan rels plan m k =
     (\<exists>xs. parent_chain rels (m # xs) \<and> last (m # xs) \<in> set plan \<and> length xs = k)"

text \<open>
  Three properties of a search function, for the induction over the depth of
  \<open>find_level\<close>: a level it finds is one more than the hops of a chain to the plan;
  a search that fails has visited its material and has added to the visited set only
  materials outside the plan whose parents are all visited; and it returns, with a
  visited set that has grown, for every material of a set \<open>N\<close>.
\<close>

definition sound_search ::
  "relations \<Rightarrow> code list \<Rightarrow> (code \<Rightarrow> code list \<Rightarrow> (int \<times> code list) option) \<Rightarrow> bool" where
  "sound_search rels plan self =
     (\<forall>p v l v'. self p v = Some (l, v') \<and> l \<ge> 0 \<longrightarrow>
        (\<exists>k. reaches_plan rels plan p k \<and> l = int k + 1))"

definition closed_growth :: "relations \<Rightarrow> code list \<Rightarrow> code list \<Rightarrow> code list \<Rightarrow> bool" where
  "closed_growth rels plan v v' =
     (set v \<subseteq> set v'
      \<and> (\<forall>x \<in> set v' - set v. x \<notin> set plan \<and> (\<forall>p. is_parent rels p x \<longrightarrow> p \<in> set v')))"

definition complete_search ::
  "relations \<Rightarrow> code list \<Rightarrow> (code \<Rightarrow> code list \<Rightarrow> (int \<times> code list) option) \<Rightarrow> bool" where
  "complete_search rels plan self =
     (\<forall>p v l v'. self p v = Some (l, v') \<and> l < 0 \<longrightarrow>
        p \<in> set v' \<and> closed_growth rels plan v v')"

definition total_search ::
  "code set \<Rightarrow> code list \<Rightarrow> (code \<Rightarrow> code list \<Rightarrow> (int \<times> code list) option) \<Rightarrow> bool" where
  "total_search N vis0 self =
     (\<forall>p v. p \<in> N \<and> set vis0 \<subseteq> set v \<longrightarrow> (\<exists>l v'. self p v = Some (l, v') \<and> set v \<subseteq> set v'))"

section \<open>Properties of unit conversion\<close>

lemma convert_quantity_gram:
  "upper (strip u) \<in> {''G'', ''GR'', ''GRAM'', ''GRAMS''}
   \<Longrightarrow> convert_quantity q u = (q * 0.001, ''KG'')"
  by (auto simp: convert_quantity_def Let_def)

lemma convert_quantity_other:
  "upper (strip u) \<notin> {''G'', ''GR'', ''GRAM'', ''GRAMS''}
   \<Longrightarrow> convert_quantity q u = (q, upper (strip u))"
  by (auto simp: convert_quantity_def Let_def)








section \<open>Properties of trimming\<close>

lemma dropWhile_idem: "dropWhile P (dropWhile P xs) = dropWhile P xs"
  by (induction xs) auto

lemma strip_not_space_ends:
  "strip s \<noteq> [] \<Longrightarrow> \<not> is_space (hd (strip s)) \<and> \<not> is_space (last (strip s))"
proof -
  assume ne: "strip s \<noteq> []"
  let ?a = "dropWhile is_space s"
  let ?b = "dropWhile is_space (rev ?a)"
  have s: "strip s = rev ?b" by (simp add: strip_def)
  with ne have bne: "?b \<noteq> []" by simp
  then have hb: "\<not> is_space (hd ?b)" by (rule hd_dropWhile)
  have l: "last (strip s) = hd ?b" using bne by (simp add: s last_rev)
  have ane: "?a \<noteq> []"
  proof
    assume "?a = []"
    then have "?b = []" by (simp only: rev.simps dropWhile.simps)
    with bne show False by simp
  qed
  then have ha: "\<not> is_space (hd ?a)" by (rule hd_dropWhile)
  obtain ys where ys: "rev ?a = ys @ ?b" by (metis takeWhile_dropWhile_id)
  then have "?a = rev ?b @ rev ys" by (metis rev_append rev_rev_ident)
  then have "hd ?a = hd (rev ?b)" using bne by (metis hd_append2 rev_is_Nil_conv)
  with ha hb l s show ?thesis by simp
qed

lemma strip_strip: "strip (strip s) = strip s"
proof (cases "strip s = []")
  case True
  have "strip [] = []" by (simp add: strip_def)
  with True show ?thesis by simp
next
  case False
  from strip_not_space_ends [OF False]
  have h: "\<not> is_space (hd (strip s))" and l: "\<not> is_space (last (strip s))" by simp_all
  have 1: "dropWhile is_space (strip s) = strip s"
    using False h by (cases "strip s") auto
  have 2: "dropWhile is_space (rev (strip s)) = rev (strip s)"
    using False l by (cases "rev (strip s)") (auto simp: last_rev [symmetric] hd_rev)
  show ?thesis
    unfolding strip_def [of "strip s"] 1 2 by simp
qed

lemma convert_quantity_strip: "convert_quantity q (strip u) = convert_quantity q u"
  by (simp add: convert_quantity_def strip_strip)

section \<open>Properties of cleaning\<close>

text \<open>What the two ways of dropping duplicates keep, key by key.\<close>

lemma drop_duplicates_seen_subset: "set (drop_duplicates_seen key seen xs) \<subseteq> set xs"
  by (induction xs arbitrary: seen) auto

lemma drop_duplicates_last_subset: "set (drop_duplicates_last key xs) \<subseteq> set xs"
  by (induction xs) auto

lemma drop_duplicates_seen_id:
  "distinct (map key xs) \<Longrightarrow> key ` set xs \<inter> set seen = {} \<Longrightarrow> drop_duplicates_seen key seen xs = xs"
  by (induction xs arbitrary: seen) auto

lemma drop_duplicates_last_id:
  "distinct (map key xs) \<Longrightarrow> drop_duplicates_last key xs = xs"
  by (induction xs) auto

lemma drop_duplicates_last_distinct: "distinct (map key (drop_duplicates_last key xs))"
proof (induction xs)
  case Nil
  then show ?case by simp
next
  case (Cons x xs)
  have "key ` set (drop_duplicates_last key xs) \<subseteq> key ` set xs"
    using drop_duplicates_last_subset [of key xs] by blast
  with Cons show ?case by auto
qed

lemma filter_drop_duplicates_seen:
  "filter (\<lambda>x. key x = k) (drop_duplicates_seen key seen xs) =
     (if k \<in> set seen then [] else take 1 (filter (\<lambda>x. key x = k) xs))"
proof (induction xs arbitrary: seen)
  case Nil
  then show ?case by simp
next
  case (Cons x xs)
  show ?case
  proof (cases "key x \<in> set seen")
    case True
    then show ?thesis using Cons [of seen] by auto
  next
    case False
    then show ?thesis using Cons [of "key x # seen"] by auto
  qed
qed

lemma filter_drop_duplicates_first:
  "filter (\<lambda>x. key x = k) (drop_duplicates_first key xs) = take 1 (filter (\<lambda>x. key x = k) xs)"
  by (simp add: drop_duplicates_first_def filter_drop_duplicates_seen)

lemma filter_drop_duplicates_last:
  "filter (\<lambda>x. key x = k) (drop_duplicates_last key xs) =
     (case filter (\<lambda>x. key x = k) xs of [] \<Rightarrow> [] | y # ys \<Rightarrow> [last (y # ys)])"
proof (induction xs)
  case Nil
  then show ?case by simp
next
  case (Cons x xs)
  show ?case
  proof (cases "key x = k")
    case True
    show ?thesis
    proof (cases "key x \<in> set (map key xs)")
      case True
      then obtain z where "z \<in> set xs" "key z = k" using \<open>key x = k\<close> by auto
      then have "filter (\<lambda>x. key x = k) xs \<noteq> []" by (auto simp: filter_empty_conv)
      then show ?thesis using Cons True \<open>key x = k\<close> by (auto split: list.splits)
    next
      case False
      then have "\<forall>z \<in> set xs. key z \<noteq> k" using \<open>key x = k\<close>
        by (metis imageI set_map)
      then have "filter (\<lambda>x. key x = k) xs = []"
        by (simp add: filter_empty_conv)
      then show ?thesis using Cons False \<open>key x = k\<close> by (auto split: list.splits)
    qed
  next
    case False
    then show ?thesis using Cons by auto
  qed
qed

lemma drop_duplicates_seen_split:
  "key b \<notin> set seen \<union> key ` set as \<Longrightarrow>
   \<exists>zs. drop_duplicates_seen key seen (as @ b # bs) = drop_duplicates_seen key seen as @ b # zs
        \<and> set zs \<subseteq> set bs"
proof (induction as arbitrary: seen)
  case Nil
  then show ?case using drop_duplicates_seen_subset [of key "key b # seen" bs] by auto
next
  case (Cons a as)
  show ?case
  proof (cases "key a \<in> set seen")
    case True
    then show ?thesis using Cons.IH [of seen] Cons.prems by auto
  next
    case False
    then show ?thesis using Cons.IH [of "key a # seen"] Cons.prems by auto
  qed
qed

lemma all_missing_essential: "all_missing r \<Longrightarrow> essential_missing r"
  by (simp add: all_missing_def essential_missing_def)

lemma key_edge_of_full: "key_edge r = (fst (key_full r), fst (snd (key_full r)))"
  by (simp add: key_edge_def key_full_def)

lemma distinct_key_full: "distinct (map key_edge xs) \<Longrightarrow> distinct (map key_full xs)"
proof -
  assume d: "distinct (map key_edge xs)"
  have "map key_edge xs = map (\<lambda>k. (fst k, fst (snd k))) (map key_full xs)"
    by (simp add: key_edge_of_full)
  with d show ?thesis by (metis distinct_map)
qed

lemma clean_bom_data_steps:
  "clean_bom_data rows =
     drop_duplicates_last key_edge
       (drop_duplicates_first key_full (filter (\<lambda>r. \<not> essential_missing r) rows))"
proof -
  have "filter (\<lambda>r. \<not> essential_missing r) (filter (\<lambda>r. \<not> all_missing r) rows)
        = filter (\<lambda>r. \<not> essential_missing r) rows"
    using all_missing_essential by (auto intro: filter_cong)
  then show ?thesis by (simp add: clean_bom_data_def Let_def)
qed

lemma clean_bom_data_complete: "r \<in> set (clean_bom_data rows) \<Longrightarrow> \<not> essential_missing r"
  using drop_duplicates_last_subset [of key_edge] drop_duplicates_seen_subset [of key_full "[]"]
  by (fastforce simp: clean_bom_data_def Let_def drop_duplicates_first_def)

lemma clean_bom_data_distinct: "distinct (map key_edge (clean_bom_data rows))"
  by (simp add: clean_bom_data_def Let_def drop_duplicates_last_distinct)

lemmas clean_eval = bom_def clean_bom_data_def drop_duplicates_first_def key_full_def
  key_edge_def all_missing_def essential_missing_def Let_def

lemmas build_eval = build_bom_relations_def build_loop_def build_row_def row_outcome_of_def
  strip_def is_space_def lower_def lower_char_def upper_def upper_char_def
  convert_quantity_def decimal_float_def digit_val_def replace_comma_def

text \<open>
  Claim C8. Cleaning is idempotent: for every sequence of BOM rows, cleaning the cleaned
  sequence again (all four steps) leaves it as it is.
\<close>

theorem clean_bom_data_idempotent: "clean_bom_data (clean_bom_data rows) = clean_bom_data rows"
proof -
  let ?ys = "clean_bom_data rows"
  have c: "\<forall>r \<in> set ?ys. \<not> essential_missing r" using clean_bom_data_complete by blast
  then have a: "\<forall>r \<in> set ?ys. \<not> all_missing r" using all_missing_essential by blast
  have f1: "filter (\<lambda>r. \<not> all_missing r) ?ys = ?ys" using a by (simp add: filter_id_conv)
  have f2: "filter (\<lambda>r. \<not> essential_missing r) ?ys = ?ys" using c by (simp add: filter_id_conv)
  have d: "distinct (map key_edge ?ys)" by (rule clean_bom_data_distinct)
  have f3: "drop_duplicates_first key_full ?ys = ?ys"
    unfolding drop_duplicates_first_def
    by (rule drop_duplicates_seen_id) (simp_all add: distinct_key_full [OF d])
  have f4: "drop_duplicates_last key_edge ?ys = ?ys" by (rule drop_duplicates_last_id [OF d])
  have "clean_bom_data ?ys =
          drop_duplicates_last key_edge (drop_duplicates_first key_full
            (filter (\<lambda>r. \<not> essential_missing r) (filter (\<lambda>r. \<not> all_missing r) ?ys)))"
    by (simp add: clean_bom_data_def Let_def)
  also have "\<dots> = ?ys" by (simp only: f1 f2 f3 f4)
  finally show ?thesis .
qed

text \<open>Claim C8 on a sheet with an exact duplicate and a revised quantity.\<close>

theorem clean_bom_data_idempotent_witness:
  "clean_bom_data (clean_bom_data
     [bom ''A'' ''B'' (Num 1) ''EA'', bom ''A'' ''B'' (Num 1) ''EA'',
      bom ''A'' ''B'' (Num 2) ''EA'', bom ''A'' ''C'' (Num 3) ''EA''])
   = [bom ''A'' ''B'' (Num 2) ''EA'', bom ''A'' ''C'' (Num 3) ''EA'']"
  using clean_bom_data_idempotent
    [of "[bom ''A'' ''B'' (Num 1) ''EA'', bom ''A'' ''B'' (Num 1) ''EA'',
          bom ''A'' ''B'' (Num 2) ''EA'', bom ''A'' ''C'' (Num 3) ''EA'']"]
  by (simp add: clean_eval)

section \<open>Properties of the relations built\<close>

lemma row_outcome_Edge:
  "row_outcome_of pyfloat r = Edge p c q \<longleftrightarrow>
     enters_relations pyfloat r \<and> p = parent_code r \<and> c = component_code r
     \<and> converted_quantity pyfloat r = Some q"
  by (cases "row_qty r"; cases "row_uom r")
     (auto simp: row_outcome_of_def enters_relations_def codes_present_def parent_code_def
        component_code_def converted_quantity_def Let_def convert_quantity_strip
        split: option.splits)

lemma enters_relations_outcome:
  assumes "enters_relations pyfloat r"
  shows "\<exists>q. row_outcome_of pyfloat r = Edge (parent_code r) (component_code r) q
             \<and> converted_quantity pyfloat r = Some q"
proof -
  from assms obtain q where "converted_quantity pyfloat r = Some q"
    by (auto simp: enters_relations_def split: option.splits)
  with assms show ?thesis using row_outcome_Edge [of pyfloat r "parent_code r" "component_code r" q]
    by auto
qed

lemma row_outcome_Warned:
  "row_outcome_of pyfloat r = Warned p c \<longleftrightarrow>
     parse_fails pyfloat r \<and> p = parent_code r \<and> c = component_code r"
  by (cases "row_qty r"; cases "row_uom r")
     (auto simp: row_outcome_of_def parse_fails_def codes_present_def parent_code_def
        component_code_def Let_def split: option.splits)

lemma get_relations_append_relation:
  "get_relations (append_relation rels p e) k =
     (if k = p then get_relations rels p @ [e] else get_relations rels k)"
  by (induction rels p e rule: append_relation.induct) (auto simp: get_relations_def)

lemma in_relations_append_relation:
  "in_relations (append_relation rels p e) k = (k = p \<or> in_relations rels k)"
  by (induction rels p e rule: append_relation.induct) (auto simp: in_relations_def)

lemma build_row_relations:
  "get_relations (relations_of (build_row pyfloat st r)) p =
     get_relations (relations_of st) p @
       (if enters_relations pyfloat r \<and> parent_code r = p
        then [(component_code r, the (converted_quantity pyfloat r))] else [])"
proof (cases "row_outcome_of pyfloat r")
  case Skipped
  then have "\<not> enters_relations pyfloat r" using enters_relations_outcome [of pyfloat r] by auto
  with Skipped show ?thesis by (simp add: build_row_def)
next
  case (Warned a b)
  then have "\<not> enters_relations pyfloat r" using enters_relations_outcome [of pyfloat r] by auto
  with Warned show ?thesis by (simp add: build_row_def)
next
  case (Edge a b q)
  then have "enters_relations pyfloat r" "a = parent_code r" "b = component_code r"
    "converted_quantity pyfloat r = Some q"
    using row_outcome_Edge [of pyfloat r a b q] by auto
  with Edge show ?thesis by (auto simp: build_row_def get_relations_append_relation)
next
  case Not_Positive
  then have "\<not> enters_relations pyfloat r" using enters_relations_outcome [of pyfloat r] by auto
  with Not_Positive show ?thesis by (simp add: build_row_def)
qed

lemma build_loop_relations:
  "get_relations (relations_of (build_loop pyfloat st rows)) p =
     get_relations (relations_of st) p @
       map (\<lambda>r. (component_code r, the (converted_quantity pyfloat r)))
         (filter (\<lambda>r. enters_relations pyfloat r \<and> parent_code r = p) rows)"
proof (induction rows arbitrary: st)
  case Nil
  then show ?case by (simp add: build_loop_def)
next
  case (Cons r rows)
  have "build_loop pyfloat st (r # rows) = build_loop pyfloat (build_row pyfloat st r) rows"
    by (simp add: build_loop_def)
  then show ?case using Cons [of "build_row pyfloat st r"]
    by (simp add: build_row_relations)
qed

lemma build_row_warnings:
  "warnings_of (build_row pyfloat st r) =
     warnings_of st @ (if parse_fails pyfloat r then [(parent_code r, component_code r)] else [])"
proof (cases "row_outcome_of pyfloat r")
  case (Warned a b)
  then show ?thesis using row_outcome_Warned [of pyfloat r a b] by (simp add: build_row_def)
next
  case Skipped
  then have "\<not> parse_fails pyfloat r"
    using row_outcome_Warned [of pyfloat r "parent_code r" "component_code r"] by simp
  with Skipped show ?thesis by (simp add: build_row_def)
next
  case (Edge a b q)
  then have "\<not> parse_fails pyfloat r"
    using row_outcome_Warned [of pyfloat r "parent_code r" "component_code r"] by simp
  with Edge show ?thesis by (simp add: build_row_def)
next
  case Not_Positive
  then have "\<not> parse_fails pyfloat r"
    using row_outcome_Warned [of pyfloat r "parent_code r" "component_code r"] by simp
  with Not_Positive show ?thesis by (simp add: build_row_def)
qed

lemma build_loop_warnings:
  "warnings_of (build_loop pyfloat st rows) =
     warnings_of st @ map (\<lambda>r. (parent_code r, component_code r)) (filter (parse_fails pyfloat) rows)"
proof (induction rows arbitrary: st)
  case Nil
  then show ?case by (simp add: build_loop_def)
next
  case (Cons r rows)
  have "build_loop pyfloat st (r # rows) = build_loop pyfloat (build_row pyfloat st r) rows"
    by (simp add: build_loop_def)
  then show ?case using Cons [of "build_row pyfloat st r"]
    by (simp add: build_row_warnings)
qed

lemma get_relations_Nil: "get_relations [] p = []"
  by (simp add: get_relations_def)

text \<open>
  Claim C6, as amended. The edges stored for a parent \<open>p\<close> are, in the order of the
  cleaned sheet, those of the rows of the cleaned sheet whose parent code is \<open>p\<close> and
  which pass the admission: parent and component code, trimmed, are not blank and not
  \<^verbatim>\<open>nan\<close> in any letter case, the quantity cell is a number or a text that converts to
  a float once every comma is replaced by a point, and the quantity converted by the
  unit is strictly positive. A row with codes whose quantity does not convert is
  recorded with a warning and skipped, whatever the other rows of its parent do, and
  every quantity stored is strictly positive.
\<close>

theorem build_bom_relations_edges:
  "get_relations (relations_of (build_bom_relations pyfloat rows)) p =
     map (\<lambda>r. (component_code r, the (converted_quantity pyfloat r)))
       (filter (\<lambda>r. enters_relations pyfloat r \<and> parent_code r = p) (clean_bom_data rows))
   \<and> warnings_of (build_bom_relations pyfloat rows) =
     map (\<lambda>r. (parent_code r, component_code r))
       (filter (parse_fails pyfloat) (clean_bom_data rows))
   \<and> (\<forall>e \<in> set (get_relations (relations_of (build_bom_relations pyfloat rows)) p). snd e > 0)"
proof -
  have 1: "get_relations (relations_of (build_bom_relations pyfloat rows)) p =
     map (\<lambda>r. (component_code r, the (converted_quantity pyfloat r)))
       (filter (\<lambda>r. enters_relations pyfloat r \<and> parent_code r = p) (clean_bom_data rows))"
    by (simp add: build_bom_relations_def build_loop_relations get_relations_Nil)
  have 2: "warnings_of (build_bom_relations pyfloat rows) =
     map (\<lambda>r. (parent_code r, component_code r))
       (filter (parse_fails pyfloat) (clean_bom_data rows))"
    by (simp add: build_bom_relations_def build_loop_warnings)
  have 3: "\<forall>e \<in> set (get_relations (relations_of (build_bom_relations pyfloat rows)) p). snd e > 0"
    unfolding 1 by (auto simp: enters_relations_def split: option.splits)
  from 1 2 3 show ?thesis by blast
qed

text \<open>
  The amended claim C6 on a sheet whose parent A has a quantity that does not convert
  (\<^verbatim>\<open>abc\<close>), one with a decimal comma, one in grams and one that is zero.
\<close>

theorem build_bom_relations_edges_witness:
  "get_relations (relations_of (build_bom_relations decimal_float
      [bom ''A'' ''B'' (Str ''abc'') ''EA'', bom ''A'' ''C'' (Str ''2,5'') ''EA'',
       bom ''A'' ''D'' (Num 500) ''g'', bom ''A'' ''E'' (Num 0) ''EA''])) ''A''
     = [(''C'', 2.5), (''D'', 0.5)]
   \<and> warnings_of (build_bom_relations decimal_float
      [bom ''A'' ''B'' (Str ''abc'') ''EA'', bom ''A'' ''C'' (Str ''2,5'') ''EA'',
       bom ''A'' ''D'' (Num 500) ''g'', bom ''A'' ''E'' (Num 0) ''EA'']) = [(''A'', ''B'')]"
  using build_bom_relations_edges
    [of decimal_float
        "[bom ''A'' ''B'' (Str ''abc'') ''EA'', bom ''A'' ''C'' (Str ''2,5'') ''EA'',
          bom ''A'' ''D'' (Num 500) ''g'', bom ''A'' ''E'' (Num 0) ''EA'']" "''A''"]
  by (simp add: clean_eval build_eval get_relations_def)

text \<open>
  Claim C6 as it is stated fails for a code that is \<^verbatim>\<open>nan\<close> in another letter case: the
  parent \<^verbatim>\<open>NAN\<close> is not blank and is not the text \<^verbatim>\<open>nan\<close>, the quantity 1 is a number
  and stays positive under the unit EA, and the row is skipped all the same.
\<close>

theorem build_bom_relations_nan_counterexample:
  "strip ''NAN'' \<noteq> [] \<and> strip ''NAN'' \<noteq> ''nan''
   \<and> strip ''B'' \<noteq> [] \<and> strip ''B'' \<noteq> ''nan''
   \<and> to_float decimal_float (Num 1) = Some 1
   \<and> fst (convert_quantity 1 ''EA'') > 0
   \<and> clean_bom_data [bom ''NAN'' ''B'' (Num 1) ''EA''] = [bom ''NAN'' ''B'' (Num 1) ''EA'']
   \<and> relations_of (build_bom_relations decimal_float [bom ''NAN'' ''B'' (Num 1) ''EA'']) = []"
  by (simp add: clean_eval build_eval)

section \<open>Properties of cleaning and the relations\<close>

text \<open>
  What the two steps that drop duplicates ensure: a row with its parent, component and
  quantity that repeats no earlier row in the four cells, and that has after it no such
  row with the same parent and component cells, is the one row of its parent and
  component cells in the cleaned sheet.
\<close>

lemma clean_bom_data_last_complete_row:
  assumes c: "\<not> essential_missing r"
    and e: "\<forall>x \<in> set xs. key_full x \<noteq> key_full r"
    and l: "\<forall>y \<in> set ys. \<not> essential_missing y \<longrightarrow> key_edge y \<noteq> key_edge r"
  shows "filter (\<lambda>x. key_edge x = key_edge r) (clean_bom_data (xs @ r # ys)) = [r]"
proof -
  let ?c = "\<lambda>r. \<not> essential_missing r"
  let ?k = "\<lambda>x. key_edge x = key_edge r"
  have f: "filter ?c (xs @ r # ys) = filter ?c xs @ r # filter ?c ys" using c by simp
  have "key_full r \<notin> set [] \<union> key_full ` set (filter ?c xs)" using e by auto
  from drop_duplicates_seen_split [OF this, of "filter ?c ys"]
  obtain zs where zs: "drop_duplicates_first key_full (filter ?c (xs @ r # ys))
      = drop_duplicates_first key_full (filter ?c xs) @ r # zs"
    and sub: "set zs \<subseteq> set (filter ?c ys)"
    unfolding drop_duplicates_first_def f by blast
  have "filter ?k zs = []" using sub l by (auto simp: filter_empty_conv)
  then have F: "filter ?k (drop_duplicates_first key_full (filter ?c (xs @ r # ys)))
      = filter ?k (drop_duplicates_first key_full (filter ?c xs)) @ [r]"
    (is "?F = ?P @ [r]")
    unfolding zs by simp
  then obtain y ys' where y: "?F = y # ys'" by (cases ?F) auto
  then have "last (y # ys') = r" using F by (metis last_snoc)
  then have "(case ?F of [] \<Rightarrow> [] | y # ys \<Rightarrow> [last (y # ys)]) = [r]"
    unfolding y by simp
  then show ?thesis
    unfolding clean_bom_data_steps filter_drop_duplicates_last [of key_edge "key_edge r"] .
qed

text \<open>
  Claim C7 fails in the code, on two sheets. Of the rows A, B with the quantities 1, 2
  and 1 again, the third is dropped by step 3 as an exact duplicate of the first, the
  second is then the last that step 4 finds, and the quantity stored is 2, while the
  latest row of the sheet gives 1: step 4, which its comment describes as taking the
  latest update, works on what step 3 has left and does not see the latest row. And the
  duplicates are compared on the cells as the sheet has them, while the relations are
  keyed by the trimmed codes: of the row A, B, 1 whose parent cell ends with a blank and
  the later row A, B, 2 both are kept, both quantities are stored for A, and the
  explosion of A gives 3 of B.
\<close>

theorem clean_bom_data_keeps_earlier_quantity:
  "clean_bom_data
     [bom ''A'' ''B'' (Num 1) ''EA'', bom ''A'' ''B'' (Num 2) ''EA'',
      bom ''A'' ''B'' (Num 1) ''EA'']
     = [bom ''A'' ''B'' (Num 2) ''EA'']
   \<and> relations_of (build_bom_relations decimal_float
     [bom ''A'' ''B'' (Num 1) ''EA'', bom ''A'' ''B'' (Num 2) ''EA'',
      bom ''A'' ''B'' (Num 1) ''EA''])
     = [(''A'', [(''B'', 2)])]
   \<and> clean_bom_data [bom ''A '' ''B'' (Num 1) ''EA'', bom ''A'' ''B'' (Num 2) ''EA'']
     = [bom ''A '' ''B'' (Num 1) ''EA'', bom ''A'' ''B'' (Num 2) ''EA'']
   \<and> relations_of (build_bom_relations decimal_float
     [bom ''A '' ''B'' (Num 1) ''EA'', bom ''A'' ''B'' (Num 2) ''EA''])
     = [(''A'', [(''B'', 1), (''B'', 2)])]
   \<and> explode_unit 2 [(''A'', [(''B'', 1), (''B'', 2)])] ''A'' = Some [(''B'', 3)]"
  by (simp add: clean_eval build_eval explode_unit_def in_relations_def get_relations_def
      numeral_2_eq_2)


section \<open>Properties of the explosion\<close>

lemma strip_Nil: "strip [] = []"
  by (simp add: strip_def)

lemma is_raw_material_trimmed:
  assumes "strip s = s"
  shows "is_raw_material s = startswith_1 s"
proof (cases s)
  case Nil
  then show ?thesis by (simp add: is_raw_material_def get_material_type_def strip_Nil)
next
  case (Cons a as)
  then show ?thesis using assms
    by (auto simp: is_raw_material_def get_material_type_def Let_def)
qed

lemma is_raw_material_strip: "is_raw_material (strip c) = startswith_1 (strip c)"
  by (rule is_raw_material_trimmed) (rule strip_strip)

lemma explode_edges_cong:
  "(\<And>c q. (c, q) \<in> set es \<Longrightarrow> f c = g c) \<Longrightarrow> explode_edges f es t = explode_edges g es t"
proof (induction es arbitrary: t)
  case Nil
  then show ?case by simp
next
  case (Cons e es)
  obtain c q where e: "e = (c, q)" by (cases e)
  have "f c = g c" using Cons.prems [of c q] by (simp add: e)
  moreover have "explode_edges f es t' = explode_edges g es t'" for t'
    by (rule Cons.IH) (use Cons.prems in auto)
  ultimately show ?case by (simp add: e split: option.splits)
qed

lemma explode_with_raw_cong:
  "(\<And>s. r1 (strip s) = r2 (strip s)) \<Longrightarrow> explode_with r1 n rels c = explode_with r2 n rels c"
proof (induction n arbitrary: c)
  case 0
  then show ?case by simp
next
  case (Suc n)
  have "explode_edges (explode_with r1 n rels) es [] = explode_edges (explode_with r2 n rels) es []" for es
    by (rule explode_edges_cong) (simp add: Suc)
  then show ?case using Suc.prems [of c] by (simp add: Let_def)
qed

lemma explode_unit_typed_eq: "explode_unit_typed n rels c = explode_unit n rels c"
  unfolding explode_unit_typed_def explode_unit_def
  by (rule explode_with_raw_cong) (rule is_raw_material_strip)

lemma explode_unit_Suc:
  "explode_unit (Suc n) rels c =
     (if is_leaf rels (strip c) then Some [(strip c, 1)]
      else explode_edges (explode_unit n rels) (get_relations rels (strip c)) [])"
  by (simp add: explode_unit_def is_leaf_def Let_def)

lemma explode_unit_0: "explode_unit 0 rels c = None"
  by (simp add: explode_unit_def)

lemma keys_add_to: "fst ` set (add_to d k v) = insert k (fst ` set d)"
  by (induction d k v rule: add_to.induct) auto

lemma distinct_add_to: "distinct (map fst d) \<Longrightarrow> distinct (map fst (add_to d k v))"
  by (induction d k v rule: add_to.induct) (auto simp: keys_add_to)

lemma lookup0_add_to: "lookup0 (add_to d k v) k' = lookup0 d k' + (if k' = k then v else 0)"
  by (induction d k v rule: add_to.induct) (auto simp: lookup0_def)

lemma keys_accumulate: "fst ` set (accumulate t sub q) = fst ` set t \<union> fst ` set sub"
  by (induction t sub q rule: accumulate.induct) (auto simp: keys_add_to)

lemma distinct_accumulate: "distinct (map fst t) \<Longrightarrow> distinct (map fst (accumulate t sub q))"
  by (induction t sub q rule: accumulate.induct) (auto simp: distinct_add_to)

lemma lookup0_absent: "k \<notin> fst ` set d \<Longrightarrow> lookup0 d k = 0"
  by (simp add: lookup0_def map_of_eq_None_iff [THEN iffD2])

lemma lookup0_Cons: "lookup0 ((k, v) # d) m = (if m = k then v else lookup0 d m)"
  by (simp add: lookup0_def)

lemma lookup0_accumulate:
  "distinct (map fst sub) \<Longrightarrow> lookup0 (accumulate t sub q) m = lookup0 t m + lookup0 sub m * q"
proof (induction t sub q rule: accumulate.induct)
  case (1 totals qty)
  then show ?case by (simp add: lookup0_def)
next
  case (2 totals material quantity rest qty)
  then have "material \<notin> fst ` set rest" by auto
  then have "lookup0 rest material = 0" by (rule lookup0_absent)
  moreover have "lookup0 (accumulate (add_to totals material (quantity * qty)) rest qty) m
      = lookup0 (add_to totals material (quantity * qty)) m + lookup0 rest m * qty"
    using 2 by simp
  ultimately show ?case by (simp add: lookup0_add_to lookup0_Cons)
qed

lemma get_relations_mem: "get_relations rels p \<noteq> [] \<Longrightarrow> (p, get_relations rels p) \<in> set rels"
  by (auto simp: get_relations_def dest: map_of_SomeD split: option.splits)

lemma keys_explode_edges:
  assumes "\<And>c s. self c = Some s \<Longrightarrow> fst ` set s \<subseteq> L"
    and "fst ` set t \<subseteq> L"
    and "explode_edges self es t = Some r"
  shows "fst ` set r \<subseteq> L"
  using assms
proof (induction es arbitrary: t)
  case Nil
  then show ?case by simp
next
  case (Cons e es)
  obtain c q where e: "e = (c, q)" by (cases e)
  from Cons.prems(3) obtain s where s: "self c = Some s"
    and r: "explode_edges self es (accumulate t s q) = Some r"
    by (auto simp: e split: option.splits)
  have "fst ` set (accumulate t s q) \<subseteq> L"
    using Cons.prems(1) [OF s] Cons.prems(2) by (simp add: keys_accumulate)
  from Cons.IH [OF Cons.prems(1) this r] show ?case by simp
qed

lemma explode_unit_keys_leaf:
  "explode_unit n rels c = Some r \<Longrightarrow> fst ` set r \<subseteq> {k. is_leaf rels k}"
proof (induction n arbitrary: c r)
  case 0
  then show ?case by (simp add: explode_unit_0)
next
  case (Suc n)
  show ?case
  proof (cases "is_leaf rels (strip c)")
    case True
    with Suc.prems show ?thesis by (auto simp: explode_unit_Suc)
  next
    case False
    with Suc.prems
    have "explode_edges (explode_unit n rels) (get_relations rels (strip c)) [] = Some r"
      by (simp add: explode_unit_Suc)
    from keys_explode_edges [OF _ _ this, of "{k. is_leaf rels k}"] Suc.IH
    show ?thesis by simp
  qed
qed













lemmas explode_eval = explode_unit_def in_relations_def get_relations_def strip_def is_space_def
  Let_def

text \<open>
  Claim C2. With a depth of at least one call, \<^verbatim>\<open>explode_unit(code)\<close> returns exactly the
  dictionary that maps the trimmed code to 1.0 if and only if the trimmed code starts
  with 1, or has no entry in the relations, or has an empty list there. The prefix comes
  first: a code that starts with 1 gets that result within a single call, so without a
  recursive call, whatever the relations hold for it. The second variant of the engine,
  which tests \<^verbatim>\<open>is_raw_material\<close> in place of the prefix, returns the same.
\<close>

theorem explode_unit_leaf:
  "(explode_unit (Suc n) rels code = Some [(strip code, 1)]
      \<longleftrightarrow> startswith_1 (strip code) \<or> \<not> in_relations rels (strip code)
          \<or> get_relations rels (strip code) = [])
   \<and> (startswith_1 (strip code) \<longrightarrow> explode_unit (Suc 0) rels code = Some [(strip code, 1)])
   \<and> explode_unit_typed (Suc n) rels code = explode_unit (Suc n) rels code"
proof -
  have 1: "explode_unit (Suc n) rels code = Some [(strip code, 1)]" if "is_leaf rels (strip code)"
    using that by (simp add: explode_unit_Suc)
  have 2: "is_leaf rels (strip code)" if "explode_unit (Suc n) rels code = Some [(strip code, 1)]"
    using explode_unit_keys_leaf [OF that] by simp
  have 3: "explode_unit (Suc 0) rels code = Some [(strip code, 1)]" if "startswith_1 (strip code)"
    using that by (simp add: explode_unit_Suc is_leaf_def)
  from 1 2 3 show ?thesis
    unfolding is_leaf_def by (auto simp: explode_unit_typed_eq)
qed

text \<open>
  Claim C2 on relations in which the raw material 1X has a component of its own: 1X,
  given with blanks around it, is returned as a leaf within one call; A, which has a
  component, is not; B, which has no entry, is.
\<close>

theorem explode_unit_leaf_witness:
  "explode_unit 1 [(''1X'', [(''B'', 2)]), (''A'', [(''B'', 2)])] '' 1X '' = Some [(''1X'', 1)]
   \<and> in_relations [(''1X'', [(''B'', 2)]), (''A'', [(''B'', 2)])] ''1X''
   \<and> explode_unit 2 [(''1X'', [(''B'', 2)]), (''A'', [(''B'', 2)])] ''A'' \<noteq> Some [(''A'', 1)]
   \<and> explode_unit 2 [(''1X'', [(''B'', 2)]), (''A'', [(''B'', 2)])] ''B'' = Some [(''B'', 1)]"
  using explode_unit_leaf [of 0 "[(''1X'', [(''B'', 2)]), (''A'', [(''B'', 2)])]" "'' 1X ''"]
    explode_unit_leaf [of 1 "[(''1X'', [(''B'', 2)]), (''A'', [(''B'', 2)])]" "''A''"]
    explode_unit_leaf [of 1 "[(''1X'', [(''B'', 2)]), (''A'', [(''B'', 2)])]" "''B''"]
  by (simp add: in_relations_def get_relations_def strip_def is_space_def numeral_2_eq_2)











section \<open>The explosion and the paths of the BOM\<close>

lemma explode_edges_mono:
  assumes "\<And>c s. f c = Some s \<Longrightarrow> g c = Some s"
  shows "explode_edges f es t = Some r \<Longrightarrow> explode_edges g es t = Some r"
proof (induction es arbitrary: t)
  case Nil
  then show ?case by simp
next
  case (Cons e es)
  obtain c q where e: "e = (c, q)" by (cases e)
  from Cons.prems obtain s where s: "f c = Some s"
    and r: "explode_edges f es (accumulate t s q) = Some r"
    by (auto simp: e split: option.splits)
  from assms [OF s] Cons.IH [OF r] show ?case by (simp add: e)
qed

lemma explode_unit_mono:
  "explode_unit n rels c = Some r \<Longrightarrow> n \<le> k \<Longrightarrow> explode_unit k rels c = Some r"
proof (induction n arbitrary: k c r)
  case 0
  then show ?case by (simp add: explode_unit_0)
next
  case (Suc n)
  from Suc.prems(2) obtain k' where k: "k = Suc k'" and le: "n \<le> k'" by (cases k) auto
  show ?case
  proof (cases "is_leaf rels (strip c)")
    case True
    with Suc.prems show ?thesis by (simp add: explode_unit_Suc k)
  next
    case False
    with Suc.prems
    have "explode_edges (explode_unit n rels) (get_relations rels (strip c)) [] = Some r"
      by (simp add: explode_unit_Suc)
    then have "explode_edges (explode_unit k' rels) (get_relations rels (strip c)) [] = Some r"
      by (rule explode_edges_mono [rotated]) (rule Suc.IH [OF _ le])
    with False show ?thesis by (simp add: explode_unit_Suc k)
  qed
qed

lemma explode_edges_sum:
  assumes "\<forall>e \<in> set es. self (fst e) = Some (sub e) \<and> distinct (map fst (sub e))"
    and "distinct (map fst t)"
  shows "\<exists>r. explode_edges self es t = Some r \<and> distinct (map fst r)
           \<and> fst ` set r = fst ` set t \<union> (\<Union>e \<in> set es. fst ` set (sub e))
           \<and> (\<forall>m. lookup0 r m = lookup0 t m + (\<Sum>e \<leftarrow> es. lookup0 (sub e) m * snd e))"
  using assms
proof (induction es arbitrary: t)
  case Nil
  then show ?case by simp
next
  case (Cons e es)
  obtain c q where e: "e = (c, q)" by (cases e)
  have s: "self c = Some (sub e)" and d: "distinct (map fst (sub e))"
    using Cons.prems(1) by (simp_all add: e)
  let ?t = "accumulate t (sub e) q"
  have dt: "distinct (map fst ?t)" using Cons.prems(2) by (rule distinct_accumulate)
  have "\<forall>e \<in> set es. self (fst e) = Some (sub e) \<and> distinct (map fst (sub e))"
    using Cons.prems(1) by simp
  from Cons.IH [OF this dt] obtain r where r: "explode_edges self es ?t = Some r"
    and dr: "distinct (map fst r)"
    and kr: "fst ` set r = fst ` set ?t \<union> (\<Union>e \<in> set es. fst ` set (sub e))"
    and lr: "\<forall>m. lookup0 r m = lookup0 ?t m + (\<Sum>e \<leftarrow> es. lookup0 (sub e) m * snd e)"
    by blast
  have 1: "explode_edges self (e # es) t = Some r" using s r by (simp add: e)
  have 2: "fst ` set r = fst ` set t \<union> (\<Union>e \<in> set (e # es). fst ` set (sub e))"
    unfolding kr keys_accumulate by auto
  have 3: "\<forall>m. lookup0 r m = lookup0 t m + (\<Sum>e \<leftarrow> e # es. lookup0 (sub e) m * snd e)"
  proof
    fix m
    have "lookup0 r m = lookup0 ?t m + (\<Sum>e \<leftarrow> es. lookup0 (sub e) m * snd e)"
      using lr by blast
    also have "lookup0 ?t m = lookup0 t m + lookup0 (sub e) m * q"
      by (rule lookup0_accumulate [OF d])
    also have "q = snd e" by (simp only: e snd_conv)
    finally show "lookup0 r m = lookup0 t m + (\<Sum>e \<leftarrow> e # es. lookup0 (sub e) m * snd e)"
      by (simp only: list.map sum_list.Cons add.assoc)
  qed
  show ?case by (intro exI [of _ r] conjI) (rule 1 dr 2 3)+
qed

lemma finite_bom_graph: "finite (bom_graph rels)"
proof -
  have "bom_graph rels \<subseteq> fst ` set rels \<times> (strip \<circ> fst) ` (\<Union>pe \<in> set rels. set (snd pe))"
  proof
    fix x assume "x \<in> bom_graph rels"
    then obtain p c q where x: "x = (p, strip c)" and m: "(c, q) \<in> set (get_relations rels p)"
      by (auto simp: bom_graph_def)
    from m have "get_relations rels p \<noteq> []" by auto
    then have "(p, get_relations rels p) \<in> set rels" by (rule get_relations_mem)
    with m show "x \<in> fst ` set rels \<times> (strip \<circ> fst) ` (\<Union>pe \<in> set rels. set (snd pe))"
      unfolding x by force
  qed
  then show ?thesis by (rule finite_subset) simp
qed

lemma paths_to_leaf:
  "is_leaf rels (strip c) \<Longrightarrow> paths_to rels c m = (if m = strip c then {[]} else {})"
proof -
  assume l: "is_leaf rels (strip c)"
  have "path_product rels c js = (if js = [] then Some (strip c, 1) else None)" for js
    using l by (cases js) simp_all
  then show ?thesis by (auto simp: paths_to_def)
qed

lemma path_weight_leaf: "is_leaf rels (strip c) \<Longrightarrow> path_weight rels c [] = 1"
  by (simp add: path_weight_def)

lemma paths_to_node:
  assumes "\<not> is_leaf rels (strip c)"
  shows "paths_to rels c m =
           (\<Union>i \<in> {..<length (get_relations rels (strip c))}.
              (#) i ` paths_to rels (fst (get_relations rels (strip c) ! i)) m)"
    (is "?L = ?R")
proof (rule set_eqI)
  fix js
  show "js \<in> ?L \<longleftrightarrow> js \<in> ?R"
  proof (cases js)
    case Nil
    then show ?thesis using assms by (auto simp: paths_to_def)
  next
    case (Cons i ks)
    let ?es = "get_relations rels (strip c)"
    have l: "js \<in> ?L \<longleftrightarrow> i < length ?es \<and> ks \<in> paths_to rels (fst (?es ! i)) m"
      using assms by (auto simp: Cons paths_to_def split: option.splits)
    have r: "js \<in> ?R \<longleftrightarrow> i < length ?es \<and> ks \<in> paths_to rels (fst (?es ! i)) m"
      by (auto simp: Cons)
    from l r show ?thesis by simp
  qed
qed

lemma path_weight_node:
  assumes "\<not> is_leaf rels (strip c)" and "i < length (get_relations rels (strip c))"
  shows "path_weight rels c (i # js) =
           path_weight rels (fst (get_relations rels (strip c) ! i)) js
             * snd (get_relations rels (strip c) ! i)"
  using assms by (simp add: path_weight_def split: option.splits)

lemma explodes_to_paths_leaf:
  assumes "is_leaf rels (strip c)"
  shows "explodes_to_paths rels c (Suc 0) [(strip c, 1)]"
  unfolding explodes_to_paths_def
  using assms
  by (simp add: explode_unit_Suc paths_to_leaf lookup0_Cons path_weight_leaf lookup0_def)

lemma explodes_to_paths_node:
  assumes nl: "\<not> is_leaf rels (strip c)"
    and ch: "\<forall>e \<in> set (get_relations rels (strip c)). explodes_to_paths rels (fst e) N (sub e)"
  shows "\<exists>r. explodes_to_paths rels c (Suc N) r"
proof -
  let ?es = "get_relations rels (strip c)"
  let ?L = "length ?es"
  have "\<forall>e \<in> set ?es. explode_unit N rels (fst e) = Some (sub e) \<and> distinct (map fst (sub e))"
    using ch by (simp add: explodes_to_paths_def)
  from explode_edges_sum [OF this, of "[]"]
  obtain r where r: "explode_edges (explode_unit N rels) ?es [] = Some r"
    and dr: "distinct (map fst r)"
    and kr: "fst ` set r = (\<Union>e \<in> set ?es. fst ` set (sub e))"
    and lr: "\<forall>m. lookup0 r m = (\<Sum>e \<leftarrow> ?es. lookup0 (sub e) m * snd e)"
    by (auto simp: lookup0_def)
  have ex: "explode_unit (Suc N) rels c = Some r" using nl r by (simp add: explode_unit_Suc)
  have chi: "explodes_to_paths rels (fst (?es ! i)) N (sub (?es ! i))" if "i < ?L" for i
    using ch that by simp
  have props: "finite (paths_to rels c m)
       \<and> (m \<in> fst ` set r \<longleftrightarrow> paths_to rels c m \<noteq> {})
       \<and> lookup0 r m = (\<Sum>js \<in> paths_to rels c m. path_weight rels c js)" for m
  proof -
    let ?S = "\<lambda>i. paths_to rels (fst (?es ! i)) m"
    have pc: "paths_to rels c m = (\<Union>i \<in> {..<?L}. (#) i ` ?S i)"
      using nl by (rule paths_to_node)
    have fin: "finite (?S i)" if "i < ?L" for i
      using chi [OF that] by (simp add: explodes_to_paths_def)
    have km: "m \<in> fst ` set (sub (?es ! i)) \<longleftrightarrow> ?S i \<noteq> {}" if "i < ?L" for i
      using chi [OF that] unfolding explodes_to_paths_def by blast
    have 1: "finite (paths_to rels c m)" unfolding pc using fin by auto
    have "m \<in> fst ` set r \<longleftrightarrow> (\<exists>e \<in> set ?es. m \<in> fst ` set (sub e))"
      unfolding kr by auto
    also have "\<dots> \<longleftrightarrow> (\<exists>i < ?L. m \<in> fst ` set (sub (?es ! i)))"
      by (metis in_set_conv_nth)
    also have "\<dots> \<longleftrightarrow> (\<exists>i < ?L. ?S i \<noteq> {})"
      using km by blast
    also have "\<dots> \<longleftrightarrow> paths_to rels c m \<noteq> {}"
      unfolding pc by auto
    finally have 2: "m \<in> fst ` set r \<longleftrightarrow> paths_to rels c m \<noteq> {}" .
    have "(\<Sum>js \<in> paths_to rels c m. path_weight rels c js)
        = (\<Sum>i \<in> {..<?L}. \<Sum>js \<in> (#) i ` ?S i. path_weight rels c js)"
      unfolding pc
      by (rule sum.UNION_disjoint) (use fin in auto)
    also have "\<dots> = (\<Sum>i \<in> {..<?L}. \<Sum>ks \<in> ?S i. path_weight rels c (i # ks))"
      by (simp add: sum.reindex)
    also have "\<dots> = (\<Sum>i \<in> {..<?L}. \<Sum>ks \<in> ?S i.
                       path_weight rels (fst (?es ! i)) ks * snd (?es ! i))"
      by (rule sum.cong [OF refl]) (simp add: path_weight_node [OF nl])
    also have "\<dots> = (\<Sum>i \<in> {..<?L}.
                       (\<Sum>ks \<in> ?S i. path_weight rels (fst (?es ! i)) ks) * snd (?es ! i))"
      by (simp add: sum_distrib_right)
    also have "\<dots> = (\<Sum>i \<in> {..<?L}. lookup0 (sub (?es ! i)) m * snd (?es ! i))"
      by (rule sum.cong [OF refl]) (use chi in \<open>simp add: explodes_to_paths_def\<close>)
    also have "\<dots> = (\<Sum>e \<leftarrow> ?es. lookup0 (sub e) m * snd e)"
      by (simp add: sum_list_sum_nth lessThan_atLeast0)
    also have "\<dots> = lookup0 r m" using lr by simp
    finally have 3: "lookup0 r m = (\<Sum>js \<in> paths_to rels c m. path_weight rels c js)"
      by simp
    from 1 2 3 show ?thesis by blast
  qed
  show ?thesis
    unfolding explodes_to_paths_def
    by (intro exI [of _ r] conjI allI) (use ex dr props in blast)+
qed

lemma explodes_to_paths_mono:
  "explodes_to_paths rels c n r \<Longrightarrow> n \<le> k \<Longrightarrow> explodes_to_paths rels c k r"
  unfolding explodes_to_paths_def using explode_unit_mono by blast

lemma explode_unit_paths_aux:
  assumes ac: "acyclic (bom_graph rels)"
  shows "\<exists>n r. explodes_to_paths rels c n r"
proof -
  have wf: "wf ((bom_graph rels)\<inverse>)"
    using finite_bom_graph ac by (rule finite_acyclic_wf_converse)
  have "\<forall>c. strip c = y \<longrightarrow> (\<exists>n r. explodes_to_paths rels c n r)" for y
    using wf
  proof (induction y rule: wf_induct_rule)
    case (less y)
    show ?case
    proof (intro allI impI)
      fix c assume y: "strip c = y"
      show "\<exists>n r. explodes_to_paths rels c n r"
      proof (cases "is_leaf rels (strip c)")
        case True
        then show ?thesis using explodes_to_paths_leaf by blast
      next
        case False
        let ?es = "get_relations rels (strip c)"
        have "\<forall>e \<in> set ?es. \<exists>n r. explodes_to_paths rels (fst e) n r"
        proof
          fix e assume e: "e \<in> set ?es"
          then have "(fst e, snd e) \<in> set (get_relations rels y)" by (simp add: y)
          then have "(y, strip (fst e)) \<in> bom_graph rels"
            unfolding bom_graph_def by blast
          then have "(strip (fst e), y) \<in> (bom_graph rels)\<inverse>" by simp
          from less.IH [OF this] show "\<exists>n r. explodes_to_paths rels (fst e) n r" by blast
        qed
        then obtain nf where "\<forall>e \<in> set ?es. \<exists>r. explodes_to_paths rels (fst e) (nf e) r"
          using bchoice [of "set ?es" "\<lambda>e n. \<exists>r. explodes_to_paths rels (fst e) n r"] by blast
        then obtain sub where sub: "\<forall>e \<in> set ?es. explodes_to_paths rels (fst e) (nf e) (sub e)"
          using bchoice [of "set ?es" "\<lambda>e r. explodes_to_paths rels (fst e) (nf e) r"] by blast
        define N where "N = sum_list (map nf ?es)"
        have "\<forall>e \<in> set ?es. explodes_to_paths rels (fst e) N (sub e)"
        proof
          fix e assume e: "e \<in> set ?es"
          then have "nf e \<le> N" unfolding N_def by (simp add: member_le_sum_list)
          with sub e show "explodes_to_paths rels (fst e) N (sub e)"
            using explodes_to_paths_mono by blast
        qed
        from explodes_to_paths_node [OF False this] show ?thesis by blast
      qed
    qed
  qed
  then show ?thesis by blast
qed

lemma example_bom_acyclic:
  "acyclic (bom_graph [(''A'', [(''B'', 2), (''D'', 1)]), (''B'', [(''C'', 3)])])"
proof (rule acyclicI_order)
  fix a b
  assume "(a, b) \<in> bom_graph [(''A'', [(''B'', 2), (''D'', 1)]), (''B'', [(''C'', 3)])]"
  then show "(if b = ''A'' then 2 else if b = ''B'' then 1 else (0::nat))
           < (if a = ''A'' then 2 else if a = ''B'' then 1 else 0)"
    by (auto simp: bom_graph_def get_relations_def strip_def is_space_def split: if_splits)
qed

lemma example_paths:
  "paths_to [(''A'', [(''B'', 2), (''D'', 1)]), (''B'', [(''C'', 3)])] ''A'' ''C'' = {[0, 0]}"
  "paths_to [(''A'', [(''B'', 2), (''D'', 1)]), (''B'', [(''C'', 3)])] ''A'' ''D'' = {[1]}"
proof -
  let ?ex = "[(''A'', [(''B'', 2), (''D'', 1)]), (''B'', [(''C'', 3)])]"
  have s: "strip ''A'' = ''A''" "strip ''B'' = ''B''" "strip ''C'' = ''C''" "strip ''D'' = ''D''"
    by (simp_all add: strip_def is_space_def)
  have g: "get_relations ?ex ''A'' = [(''B'', 2), (''D'', 1)]"
    "get_relations ?ex ''B'' = [(''C'', 3)]"
    by (simp_all add: get_relations_def)
  have l: "\<not> is_leaf ?ex (strip ''A'')" "\<not> is_leaf ?ex (strip ''B'')"
    "is_leaf ?ex (strip ''C'')" "is_leaf ?ex (strip ''D'')"
    by (simp_all add: s is_leaf_def in_relations_def get_relations_def)
  have c: "paths_to ?ex ''C'' m = (if m = ''C'' then {[]} else {})" for m
    using paths_to_leaf [OF l(3)] by (simp add: s)
  have d: "paths_to ?ex ''D'' m = (if m = ''D'' then {[]} else {})" for m
    using paths_to_leaf [OF l(4)] by (simp add: s)
  have b: "paths_to ?ex ''B'' m = (#) 0 ` paths_to ?ex ''C'' m" for m
    unfolding paths_to_node [OF l(2)] by (auto simp: s g lessThan_Suc)
  have a: "paths_to ?ex ''A'' m = (#) 0 ` paths_to ?ex ''B'' m \<union> (#) 1 ` paths_to ?ex ''D'' m" for m
    unfolding paths_to_node [OF l(1)] by (auto simp: s g lessThan_Suc numeral_2_eq_2)
  show "paths_to ?ex ''A'' ''C'' = {[0, 0]}" by (simp add: a b c d)
  show "paths_to ?ex ''A'' ''D'' = {[1]}" by (simp add: a b c d)
qed

lemma example_weights:
  "path_weight [(''A'', [(''B'', 2), (''D'', 1)]), (''B'', [(''C'', 3)])] ''A'' [0, 0] = 3 * 2"
  "path_weight [(''A'', [(''B'', 2), (''D'', 1)]), (''B'', [(''C'', 3)])] ''A'' [1] = 1"
  by (simp_all add: path_weight_def is_leaf_def in_relations_def get_relations_def
      strip_def is_space_def)

text \<open>
  Claim C1. When the graph of the relations has no cycle, \<^verbatim>\<open>explode_unit(code)\<close> returns:
  from some depth on, every bound on the depth of the recursion gives the same
  dictionary. Its keys are distinct and are the leaves that a path from the code
  reaches, and the quantity of each leaf is the sum, over all paths from the code to
  that leaf, of the products of the quantities on the edges of the path. For the BOM
  A to 2 B, B to 3 C, A to 1 D the result is C: 6.0, D: 1.0.
\<close>

theorem explode_unit_path_sums:
  assumes "acyclic (bom_graph rels)"
  shows "(\<exists>n r. (\<forall>k \<ge> n. explode_unit k rels code = Some r) \<and> distinct (map fst r)
            \<and> (\<forall>m. finite (paths_to rels code m)
                   \<and> (m \<in> fst ` set r \<longleftrightarrow> paths_to rels code m \<noteq> {})
                   \<and> lookup0 r m = (\<Sum>js \<in> paths_to rels code m. path_weight rels code js)))
         \<and> explode_unit 3 [(''A'', [(''B'', 2), (''D'', 1)]), (''B'', [(''C'', 3)])] ''A''
             = Some [(''C'', 6), (''D'', 1)]"
proof -
  from explode_unit_paths_aux [OF assms, of code]
  obtain n r where e: "explodes_to_paths rels code n r" by blast
  then have "\<forall>k \<ge> n. explode_unit k rels code = Some r"
    using explode_unit_mono unfolding explodes_to_paths_def by blast
  with e have "\<exists>n r. (\<forall>k \<ge> n. explode_unit k rels code = Some r) \<and> distinct (map fst r)
            \<and> (\<forall>m. finite (paths_to rels code m)
                   \<and> (m \<in> fst ` set r \<longleftrightarrow> paths_to rels code m \<noteq> {})
                   \<and> lookup0 r m = (\<Sum>js \<in> paths_to rels code m. path_weight rels code js))"
    unfolding explodes_to_paths_def by blast
  moreover have "explode_unit 3 [(''A'', [(''B'', 2), (''D'', 1)]), (''B'', [(''C'', 3)])] ''A''
             = Some [(''C'', 6), (''D'', 1)]"
    by (simp add: explode_eval numeral_3_eq_3)
  ultimately show ?thesis by blast
qed

text \<open>
  Claim C1 on the BOM A to 2 B, B to 3 C, A to 1 D: the graph has no cycle, the one path
  from A to C takes the first edge of A and the first edge of B and weighs 6, and 6 is
  the quantity of C.
\<close>

theorem explode_unit_path_sums_witness:
  "acyclic (bom_graph [(''A'', [(''B'', 2), (''D'', 1)]), (''B'', [(''C'', 3)])])
   \<and> (\<exists>n. \<forall>k \<ge> n. explode_unit k [(''A'', [(''B'', 2), (''D'', 1)]), (''B'', [(''C'', 3)])] ''A''
              = Some [(''C'', 6), (''D'', 1)])
   \<and> paths_to [(''A'', [(''B'', 2), (''D'', 1)]), (''B'', [(''C'', 3)])] ''A'' ''C'' = {[0, 0]}
   \<and> path_weight [(''A'', [(''B'', 2), (''D'', 1)]), (''B'', [(''C'', 3)])] ''A'' [0, 0] = 6
   \<and> lookup0 [(''C'', 6), (''D'', 1)] ''C''
       = (\<Sum>js \<in> paths_to [(''A'', [(''B'', 2), (''D'', 1)]), (''B'', [(''C'', 3)])] ''A'' ''C''.
            path_weight [(''A'', [(''B'', 2), (''D'', 1)]), (''B'', [(''C'', 3)])] ''A'' js)"
proof -
  let ?ex = "[(''A'', [(''B'', 2), (''D'', 1)]), (''B'', [(''C'', 3)])]"
  from explode_unit_path_sums [OF example_bom_acyclic, of "''A''"]
  obtain n r where n: "\<forall>k \<ge> n. explode_unit k ?ex ''A'' = Some r"
    and p: "\<forall>m. lookup0 r m = (\<Sum>js \<in> paths_to ?ex ''A'' m. path_weight ?ex ''A'' js)"
    and e3: "explode_unit 3 ?ex ''A'' = Some [(''C'', 6), (''D'', 1)]"
    by blast
  have "explode_unit (max n 3) ?ex ''A'' = Some r" using n by simp
  moreover have "explode_unit (max n 3) ?ex ''A'' = Some [(''C'', 6), (''D'', 1)]"
    using explode_unit_mono [OF e3, of "max n 3"] by simp
  ultimately have r: "r = [(''C'', 6), (''D'', 1)]" by simp
  have 1: "\<exists>n. \<forall>k \<ge> n. explode_unit k ?ex ''A'' = Some [(''C'', 6), (''D'', 1)]"
    using n unfolding r by blast
  have 2: "lookup0 [(''C'', 6), (''D'', 1)] ''C''
       = (\<Sum>js \<in> paths_to ?ex ''A'' ''C''. path_weight ?ex ''A'' js)"
    using p unfolding r by blast
  have 3: "path_weight ?ex ''A'' [0, 0] = 6" by (simp add: example_weights)
  show ?thesis
    by (intro conjI) (rule example_bom_acyclic 1 example_paths(1) 3 2)+
qed


section \<open>Properties of the requirements\<close>

lemma requirement_Nil: "requirement [] m p = 0"
  by (simp add: requirement_def)

lemma lookup0_Nil: "lookup0 [] k = 0"
  by (simp add: lookup0_def)

lemma requirement_add_result:
  "requirement (add_result res m p v) m' p' =
     requirement res m' p' + (if m' = m \<and> p' = p then v else 0)"
  by (induction res m p v rule: add_result.induct)
     (auto simp: requirement_def lookup0_add_to lookup0_Cons lookup0_Nil)

lemma requirement_add_bom_map:
  "requirement (add_bom_map res bmap p planned) m' p' =
     requirement res m' p' + (if p' = p then planned * per_unit_of bmap m' else 0)"
  by (induction res bmap p planned rule: add_bom_map.induct)
     (auto simp: requirement_add_result per_unit_of_def algebra_simps)

lemma requirement_months_loop:
  "requirement (months_loop pyfloat cells bmap months res) m p =
     requirement res m p
       + real (count_list months p) * planned_of pyfloat cells p * per_unit_of bmap m"
  by (induction pyfloat cells bmap months res rule: months_loop.induct)
     (auto simp: requirement_add_bom_map planned_of_def algebra_simps split: option.splits)

lemma requirement_plan_loop:
  "plan_loop explode pyfloat months rows res = Some res' \<Longrightarrow>
   requirement res' m p =
     requirement res m p + (\<Sum>r \<leftarrow> rows. row_share explode pyfloat months r m p)"
proof (induction rows arbitrary: res)
  case Nil
  then show ?case by simp
next
  case (Cons r rows)
  let ?fg = "strip (cell_str (plan_code r))"
  show ?case
  proof (cases "plan_code_skipped ?fg")
    case True
    then have "plan_loop explode pyfloat months rows res = Some res'"
      using Cons.prems by simp
    from Cons.IH [OF this] True show ?thesis by (simp add: row_share_def)
  next
    case False
    then obtain bmap where b: "explode ?fg = Some bmap"
      and l: "plan_loop explode pyfloat months rows
                (months_loop pyfloat (plan_cells r) bmap months res) = Some res'"
      using Cons.prems by (auto simp: Let_def split: option.splits)
    from Cons.IH [OF l] False b show ?thesis
      by (simp add: row_share_def requirement_months_loop)
  qed
qed

lemma plan_loop_defined:
  "plan_loop explode pyfloat months rows res \<noteq> None \<longleftrightarrow>
     (\<forall>r \<in> set rows. \<not> plan_code_skipped (strip (cell_str (plan_code r)))
        \<longrightarrow> explode (strip (cell_str (plan_code r))) \<noteq> None)"
  by (induction rows arbitrary: res) (auto simp: Let_def split: option.splits)

lemma row_contribution_share:
  "row_contribution n pyfloat rels months r m p =
     row_share (explode_unit n rels) pyfloat months r m p"
proof (cases "calculate_requirements n pyfloat rels months [r]")
  case None
  then have "\<not> plan_code_skipped (strip (cell_str (plan_code r)))"
    and "explode_unit n rels (strip (cell_str (plan_code r))) = None"
    by (auto simp: calculate_requirements_def Let_def split: if_splits option.splits)
  with None show ?thesis by (simp add: row_contribution_def row_share_def)
next
  case (Some res)
  then have "plan_loop (explode_unit n rels) pyfloat months [r] [] = Some res"
    by (simp add: calculate_requirements_def)
  from requirement_plan_loop [OF this, of m p] Some show ?thesis
    by (simp add: row_contribution_def requirement_Nil)
qed

lemma row_share_doubled:
  assumes "to_float pyfloat (plan_cells r p) = Some q"
    and "to_float pyfloat c' = Some (2 * q)"
  shows "row_share explode pyfloat months (r\<lparr>plan_cells := (plan_cells r)(p := c')\<rparr>) m p
           = 2 * row_share explode pyfloat months r m p"
    and "p' \<noteq> p \<Longrightarrow>
         row_share explode pyfloat months (r\<lparr>plan_cells := (plan_cells r)(p := c')\<rparr>) m p'
           = row_share explode pyfloat months r m p'"
  using assms by (auto simp: row_share_def planned_of_def Let_def split: option.splits)

text \<open>
  Claim C5. The requirements are linear in a planned quantity. When the planned value of
  a row \<open>r\<close> in a period \<open>p\<close> is doubled and nothing else changes, the
  calculation returns again, the share of \<open>r\<close> in the total of every material in
  \<open>p\<close> is doubled, so that each such total grows by the share \<open>r\<close> had, and the
  totals of every other period are as before. (Quantities are real numbers here: the
  rounding of float sums is outside the statement.)
\<close>

theorem calculate_requirements_linear:
  assumes "to_float pyfloat (plan_cells r p) = Some q"
    and "to_float pyfloat c' = Some (2 * q)"
    and "calculate_requirements n pyfloat rels month_cols (xs @ r # ys) = Some res"
  shows "\<exists>res'. calculate_requirements n pyfloat rels month_cols
                  (xs @ r\<lparr>plan_cells := (plan_cells r)(p := c')\<rparr> # ys) = Some res'
           \<and> (\<forall>m. row_contribution n pyfloat rels month_cols
                      (r\<lparr>plan_cells := (plan_cells r)(p := c')\<rparr>) m p
                    = 2 * row_contribution n pyfloat rels month_cols r m p
                  \<and> requirement res' m p
                    = requirement res m p + row_contribution n pyfloat rels month_cols r m p)
           \<and> (\<forall>m p'. p' \<noteq> p \<longrightarrow> requirement res' m p' = requirement res m p')"
proof -
  let ?r' = "r\<lparr>plan_cells := (plan_cells r)(p := c')\<rparr>"
  let ?ex = "explode_unit n rels"
  let ?sh = "row_share ?ex pyfloat month_cols"
  have l: "plan_loop ?ex pyfloat month_cols (xs @ r # ys) [] = Some res"
    using assms(3) by (simp add: calculate_requirements_def)
  then have "plan_loop ?ex pyfloat month_cols (xs @ r # ys) [] \<noteq> None" by simp
  then have "plan_loop ?ex pyfloat month_cols (xs @ ?r' # ys) [] \<noteq> None"
    unfolding plan_loop_defined by simp
  then obtain res' where l': "plan_loop ?ex pyfloat month_cols (xs @ ?r' # ys) [] = Some res'"
    by blast
  have t: "requirement res m p' = sum_list (map (\<lambda>x. ?sh x m p') xs) + ?sh r m p'
             + sum_list (map (\<lambda>x. ?sh x m p') ys)" for m p'
    using requirement_plan_loop [OF l, of m p'] by (simp add: requirement_Nil)
  have t': "requirement res' m p' = sum_list (map (\<lambda>x. ?sh x m p') xs) + ?sh ?r' m p'
             + sum_list (map (\<lambda>x. ?sh x m p') ys)" for m p'
    using requirement_plan_loop [OF l', of m p'] by (simp add: requirement_Nil)
  have d: "?sh ?r' m p = 2 * ?sh r m p" for m
    using assms(1,2) by (rule row_share_doubled(1))
  have o: "?sh ?r' m p' = ?sh r m p'" if "p' \<noteq> p" for m p'
    using assms(1,2) that by (rule row_share_doubled(2))
  have 1: "calculate_requirements n pyfloat rels month_cols (xs @ ?r' # ys) = Some res'"
    using l' by (simp add: calculate_requirements_def)
  have 2: "row_contribution n pyfloat rels month_cols ?r' m p
             = 2 * row_contribution n pyfloat rels month_cols r m p" for m
    unfolding row_contribution_share by (rule d)
  have 3: "requirement res' m p
             = requirement res m p + row_contribution n pyfloat rels month_cols r m p" for m
    unfolding row_contribution_share t t' d by simp
  have 4: "requirement res' m p' = requirement res m p'" if "p' \<noteq> p" for m p'
    unfolding t t' o [OF that] by simp
  from 1 2 3 4 show ?thesis by blast
qed

text \<open>
  Claim C5 on the BOM with A made of 2 B and 1 D, and B made of 3 C, and a plan of 10 A
  and 1 D in January: doubling the 10 takes C from 60 to 120 and D from 11 to 21, the
  share of the row A in C having been 60.
\<close>

theorem calculate_requirements_linear_witness:
  "calculate_requirements 3 decimal_float
     [(''A'', [(''B'', 2), (''D'', 1)]), (''B'', [(''C'', 3)])] [''Jan'']
     [\<lparr>plan_code = Text ''A'', plan_cells = (\<lambda>m. Num 10)\<rparr>,
      \<lparr>plan_code = Text ''D'', plan_cells = (\<lambda>m. Num 1)\<rparr>]
     = Some [(''C'', [(''Jan'', 60)]), (''D'', [(''Jan'', 11)])]
   \<and> calculate_requirements 3 decimal_float
     [(''A'', [(''B'', 2), (''D'', 1)]), (''B'', [(''C'', 3)])] [''Jan'']
     [\<lparr>plan_code = Text ''A'', plan_cells = (\<lambda>m. Num 10)\<rparr>
        \<lparr>plan_cells := (\<lambda>m. Num 10)(''Jan'' := Num 20)\<rparr>,
      \<lparr>plan_code = Text ''D'', plan_cells = (\<lambda>m. Num 1)\<rparr>]
     = Some [(''C'', [(''Jan'', 120)]), (''D'', [(''Jan'', 21)])]
   \<and> row_contribution 3 decimal_float
     [(''A'', [(''B'', 2), (''D'', 1)]), (''B'', [(''C'', 3)])] [''Jan'']
     \<lparr>plan_code = Text ''A'', plan_cells = (\<lambda>m. Num 10)\<rparr> ''C'' ''Jan'' = 60"
  using calculate_requirements_linear
    [of decimal_float "\<lparr>plan_code = Text ''A'', plan_cells = (\<lambda>m. Num 10)\<rparr>" "''Jan''" 10
        "Num 20" 3 "[(''A'', [(''B'', 2), (''D'', 1)]), (''B'', [(''C'', 3)])]" "[''Jan'']" "[]"
        "[\<lparr>plan_code = Text ''D'', plan_cells = (\<lambda>m. Num 1)\<rparr>]"]
  by (simp add: calculate_requirements_def row_contribution_def requirement_def lookup0_def
      plan_code_skipped_def lower_def lower_char_def explode_eval numeral_3_eq_3)

section \<open>Plan rows without a code\<close>

text \<open>
  \<^verbatim>\<open>calculate_requirements\<close> skips a plan row whose code is blank or \<^verbatim>\<open>nan\<close>, and
  \<^verbatim>\<open>calculate_all_levels_requirements\<close> skips a row whose code is blank: the result
  is that of the plan without the row.
\<close>

lemma plan_loop_skips_row:
  assumes "plan_code_skipped (strip (cell_str (plan_code r)))"
  shows "plan_loop explode pyfloat months (xs @ r # ys) res
           = plan_loop explode pyfloat months (xs @ ys) res"
  using assms by (induction xs arbitrary: res) (auto simp: Let_def split: option.splits)

lemma plan_code_skipped_blank_nan:
  "strip (cell_str c) = [] \<or> strip (cell_str c) = ''nan'' \<Longrightarrow> plan_code_skipped (strip (cell_str c))"
  by (auto simp: plan_code_skipped_def lower_def lower_char_def)

lemma calculate_requirements_skips_row:
  assumes "strip (cell_str (plan_code r)) = [] \<or> strip (cell_str (plan_code r)) = ''nan''"
  shows "calculate_requirements n pyfloat rels months (xs @ r # ys)
           = calculate_requirements n pyfloat rels months (xs @ ys)"
  unfolding calculate_requirements_def
  by (rule plan_loop_skips_row) (rule plan_code_skipped_blank_nan [OF assms])

lemma all_levels_skips_blank_row:
  assumes "strip (cell_str (plan_code r)) = []"
  shows "calculate_all_levels_requirements n pyfloat rels months (xs @ r # ys)
           = calculate_all_levels_requirements n pyfloat rels months (xs @ ys)"
proof -
  have "all_levels_loop n pyfloat rels months (xs @ r # ys) res
           = all_levels_loop n pyfloat rels months (xs @ ys) res" for res
    using assms by (induction xs arbitrary: res) (auto simp: Let_def split: option.splits)
  then show ?thesis by (simp add: calculate_all_levels_requirements_def)
qed

text \<open>
  Claim C4 does not hold of \<^verbatim>\<open>calculate_all_levels_requirements\<close>, whose only test on
  the code is \<^verbatim>\<open>if not parent\<close>. A plan row with a missing code, whose text is
  \<^verbatim>\<open>nan\<close>, and 10 planned in January puts a material \<^verbatim>\<open>nan\<close> with 10 in January into
  the table of all levels, which is empty without the row;
  \<^verbatim>\<open>calculate_requirements\<close> skips the same row.
\<close>

theorem all_levels_keeps_nan_row:
  "strip (cell_str (plan_code \<lparr>plan_code = Missing, plan_cells = (\<lambda>m. Num 10)\<rparr>)) = ''nan''
   \<and> calculate_all_levels_requirements 1 decimal_float [] [''Jan'']
       [\<lparr>plan_code = Missing, plan_cells = (\<lambda>m. Num 10)\<rparr>] = Some [(''nan'', [(''Jan'', 10)])]
   \<and> calculate_all_levels_requirements 1 decimal_float [] [''Jan''] [] = Some []
   \<and> calculate_requirements 1 decimal_float [] [''Jan'']
       [\<lparr>plan_code = Missing, plan_cells = (\<lambda>m. Num 10)\<rparr>] = Some []"
  by (simp add: calculate_all_levels_requirements_def calculate_requirements_def
      plan_code_skipped_def strip_def is_space_def lower_def lower_char_def in_relations_def)


section \<open>Properties of the level search\<close>

lemma scan_components_sound:
  assumes "sound_search rels plan self"
    and "scan_components self cur parent comps vis = Some (Some l, v')"
  shows "cur \<in> fst ` set comps \<and> (\<exists>k. reaches_plan rels plan parent k \<and> l = int k + 2)"
  using assms(2)
proof (induction comps arbitrary: vis)
  case Nil
  then show ?case by simp
next
  case (Cons e comps)
  obtain c q where e: "e = (c, q)" by (cases e)
  show ?case
  proof (cases "c = cur")
    case False
    with Cons.prems have "scan_components self cur parent comps vis = Some (Some l, v')"
      by (simp add: e)
    from Cons.IH [OF this] show ?thesis by simp
  next
    case True
    from Cons.prems True obtain pl v1 where s: "self parent vis = Some (pl, v1)"
      by (auto simp: e split: option.splits)
    show ?thesis
    proof (cases "pl \<ge> 0")
      case True
      with s Cons.prems \<open>c = cur\<close> have l: "l = pl + 1" by (simp add: e)
      from assms(1) s True obtain k where "reaches_plan rels plan parent k" "pl = int k + 1"
        unfolding sound_search_def by blast
      with l \<open>c = cur\<close> show ?thesis by (auto simp: e)
    next
      case False
      with s Cons.prems \<open>c = cur\<close>
      have "scan_components self cur parent comps v1 = Some (Some l, v')"
        by (simp add: e)
      from Cons.IH [OF this] show ?thesis by simp
    qed
  qed
qed

lemma scan_relations_sound:
  assumes "sound_search rels plan self"
    and "scan_relations self cur rs vis = Some (Some l, v')"
  shows "\<exists>parent comps k. (parent, comps) \<in> set rs \<and> cur \<in> fst ` set comps
           \<and> reaches_plan rels plan parent k \<and> l = int k + 2"
  using assms(2)
proof (induction rs arbitrary: vis)
  case Nil
  then show ?case by simp
next
  case (Cons pc rs)
  obtain parent comps where pc: "pc = (parent, comps)" by (cases pc)
  from Cons.prems obtain res v1 where
    s: "scan_components self cur parent comps vis = Some (res, v1)"
    by (auto simp: pc split: option.splits)
  show ?case
  proof (cases res)
    case None
    with s Cons.prems have "scan_relations self cur rs v1 = Some (Some l, v')"
      by (simp add: pc)
    from Cons.IH [OF this] show ?thesis by auto
  next
    case (Some l')
    with s Cons.prems have "l' = l" "v1 = v'" by (simp_all add: pc)
    with s Some have "scan_components self cur parent comps vis = Some (Some l, v')" by simp
    from scan_components_sound [OF assms(1) this] show ?thesis by (auto simp: pc)
  qed
qed

lemma reaches_plan_step:
  "is_parent rels p c \<Longrightarrow> reaches_plan rels plan p k \<Longrightarrow> reaches_plan rels plan c (Suc k)"
proof -
  assume ip: "is_parent rels p c" and "reaches_plan rels plan p k"
  then obtain xs where "parent_chain rels (p # xs)" "last (p # xs) \<in> set plan" "length xs = k"
    unfolding reaches_plan_def by blast
  then have "parent_chain rels (c # p # xs) \<and> last (c # p # xs) \<in> set plan
             \<and> length (p # xs) = Suc k"
    using ip by simp
  then show ?thesis unfolding reaches_plan_def by blast
qed

lemma find_level_sound: "sound_search rels plan (find_level n rels plan)"
proof (induction n)
  case 0
  then show ?case by (simp add: sound_search_def)
next
  case (Suc n)
  show ?case
    unfolding sound_search_def
  proof (intro allI impI)
    fix p v l v'
    assume a: "find_level (Suc n) rels plan p v = Some (l, v') \<and> l \<ge> 0"
    then have nv: "p \<notin> set v" by (auto split: if_splits)
    show "\<exists>k. reaches_plan rels plan p k \<and> l = int k + 1"
    proof (cases "p \<in> set plan")
      case True
      with a nv have "l = 1" by (simp add: Let_def)
      moreover have "reaches_plan rels plan p 0" using True by (simp add: reaches_plan_def)
      ultimately show ?thesis by auto
    next
      case False
      with a nv have "scan_relations (find_level n rels plan) p rels (p # v) = Some (Some l, v')"
        by (auto simp: Let_def split: option.splits)
      from scan_relations_sound [OF Suc this]
      obtain parent comps k where "(parent, comps) \<in> set rels" "p \<in> fst ` set comps"
        "reaches_plan rels plan parent k" "l = int k + 2"
        by blast
      then have "reaches_plan rels plan p (Suc k)" "l = int (Suc k) + 1"
        using reaches_plan_step [of rels parent p plan k] by (auto simp: is_parent_def)
      then show ?thesis by blast
    qed
  qed
qed

lemma closed_growth_refl: "closed_growth rels plan v v"
  by (simp add: closed_growth_def)

lemma closed_growth_trans:
  "closed_growth rels plan v1 v2 \<Longrightarrow> closed_growth rels plan v2 v3
   \<Longrightarrow> closed_growth rels plan v1 v3"
  unfolding closed_growth_def by blast

lemma scan_components_complete:
  assumes "complete_search rels plan self"
    and "scan_components self cur parent comps vis = Some (None, v')"
  shows "closed_growth rels plan vis v' \<and> (cur \<in> fst ` set comps \<longrightarrow> parent \<in> set v')"
  using assms(2)
proof (induction comps arbitrary: vis)
  case Nil
  then show ?case by (simp add: closed_growth_refl)
next
  case (Cons e comps)
  obtain c q where e: "e = (c, q)" by (cases e)
  show ?case
  proof (cases "c = cur")
    case False
    with Cons.prems have "scan_components self cur parent comps vis = Some (None, v')"
      by (simp add: e)
    from Cons.IH [OF this] False show ?thesis by (simp add: e)
  next
    case True
    from Cons.prems True obtain pl v1 where s: "self parent vis = Some (pl, v1)"
      by (auto simp: e split: option.splits)
    with Cons.prems True have neg: "pl < 0"
      and r: "scan_components self cur parent comps v1 = Some (None, v')"
      by (auto simp: e split: if_splits)
    from assms(1) s neg have p: "parent \<in> set v1" and g: "closed_growth rels plan vis v1"
      unfolding complete_search_def by blast+
    from Cons.IH [OF r] have g': "closed_growth rels plan v1 v'" by simp
    then have "set v1 \<subseteq> set v'" by (simp add: closed_growth_def)
    with p closed_growth_trans [OF g g'] show ?thesis by auto
  qed
qed

lemma scan_relations_complete:
  assumes "complete_search rels plan self"
    and "scan_relations self cur rs vis = Some (None, v')"
  shows "closed_growth rels plan vis v'
         \<and> (\<forall>pc \<in> set rs. cur \<in> fst ` set (snd pc) \<longrightarrow> fst pc \<in> set v')"
  using assms(2)
proof (induction rs arbitrary: vis)
  case Nil
  then show ?case by (simp add: closed_growth_refl)
next
  case (Cons pc rs)
  obtain parent comps where pc: "pc = (parent, comps)" by (cases pc)
  from Cons.prems obtain v1 where
    s: "scan_components self cur parent comps vis = Some (None, v1)"
    and r: "scan_relations self cur rs v1 = Some (None, v')"
    by (auto simp: pc split: option.splits)
  from scan_components_complete [OF assms(1) s]
  have g: "closed_growth rels plan vis v1" and m: "cur \<in> fst ` set comps \<longrightarrow> parent \<in> set v1"
    by simp_all
  from Cons.IH [OF r]
  have g': "closed_growth rels plan v1 v'"
    and m': "\<forall>pc \<in> set rs. cur \<in> fst ` set (snd pc) \<longrightarrow> fst pc \<in> set v'"
    by simp_all
  from g' have "set v1 \<subseteq> set v'" by (simp add: closed_growth_def)
  with m m' closed_growth_trans [OF g g'] show ?case by (auto simp: pc)
qed

lemma find_level_complete: "complete_search rels plan (find_level n rels plan)"
proof (induction n)
  case 0
  then show ?case by (simp add: complete_search_def)
next
  case (Suc n)
  show ?case
    unfolding complete_search_def
  proof (intro allI impI)
    fix p v l v'
    assume a: "find_level (Suc n) rels plan p v = Some (l, v') \<and> l < 0"
    show "p \<in> set v' \<and> closed_growth rels plan v v'"
    proof (cases "p \<in> set v")
      case True
      with a have "v' = v" by simp
      with True show ?thesis by (simp add: closed_growth_refl)
    next
      case False
      with a have np: "p \<notin> set plan" by (auto simp: Let_def split: if_splits)
      have "l' \<ge> 0"
        if "scan_relations (find_level n rels plan) p rels (p # v) = Some (Some l', v')" for l'
        using scan_relations_sound [OF find_level_sound that] by auto
      with a False np
      have "scan_relations (find_level n rels plan) p rels (p # v) = Some (None, v')"
        by (auto simp: Let_def split: option.splits)
      from scan_relations_complete [OF Suc this]
      have g: "closed_growth rels plan (p # v) v'"
        and m: "\<forall>pc \<in> set rels. p \<in> fst ` set (snd pc) \<longrightarrow> fst pc \<in> set v'"
        by simp_all
      from g have pv: "p \<in> set v'" by (simp add: closed_growth_def)
      have "\<forall>q. is_parent rels q p \<longrightarrow> q \<in> set v'"
        using m unfolding is_parent_def by fastforce
      with g np have "closed_growth rels plan v v'"
        unfolding closed_growth_def by auto
      with pv show ?thesis by simp
    qed
  qed
qed

lemma closed_chain:
  assumes "\<forall>x \<in> set V. x \<notin> set plan \<and> (\<forall>p. is_parent rels p x \<longrightarrow> p \<in> set V)"
  shows "parent_chain rels (m # xs) \<Longrightarrow> m \<in> set V \<Longrightarrow> last (m # xs) \<in> set V"
proof (induction xs arbitrary: m)
  case Nil
  then show ?case by simp
next
  case (Cons y ys)
  then have "is_parent rels y m" "parent_chain rels (y # ys)" by simp_all
  with assms Cons.prems(2) have "y \<in> set V" by blast
  from Cons.IH [OF \<open>parent_chain rels (y # ys)\<close> this] show ?case by simp
qed

lemma find_level_no_chain:
  assumes "find_level n rels plan m [] = Some (l, v)" and "l < 0"
  shows "\<not> reaches_plan rels plan m k"
proof
  assume "reaches_plan rels plan m k"
  then obtain xs where c: "parent_chain rels (m # xs)" and p: "last (m # xs) \<in> set plan"
    unfolding reaches_plan_def by blast
  from find_level_complete [of rels plan n] assms
  have mv: "m \<in> set v" and g: "closed_growth rels plan [] v"
    unfolding complete_search_def by blast+
  from g have "\<forall>x \<in> set v. x \<notin> set plan \<and> (\<forall>p. is_parent rels p x \<longrightarrow> p \<in> set v)"
    by (simp add: closed_growth_def)
  from closed_chain [OF this c mv] this p show False by blast
qed

lemma scan_components_total:
  assumes "total_search N vis0 self" and "parent \<in> N"
  shows "set vis0 \<subseteq> set vis \<Longrightarrow>
         \<exists>res v'. scan_components self cur parent comps vis = Some (res, v') \<and> set vis \<subseteq> set v'"
proof (induction comps arbitrary: vis)
  case Nil
  then show ?case by simp
next
  case (Cons e comps)
  obtain c q where e: "e = (c, q)" by (cases e)
  show ?case
  proof (cases "c = cur")
    case False
    with Cons.IH [OF Cons.prems] show ?thesis by (simp add: e)
  next
    case True
    from assms Cons.prems obtain pl v1 where s: "self parent vis = Some (pl, v1)"
      and sub: "set vis \<subseteq> set v1"
      unfolding total_search_def by blast
    show ?thesis
    proof (cases "pl \<ge> 0")
      case True
      with s sub \<open>c = cur\<close> show ?thesis by (simp add: e)
    next
      case False
      from Cons.prems sub have "set vis0 \<subseteq> set v1" by simp
      from Cons.IH [OF this] obtain res v' where
        "scan_components self cur parent comps v1 = Some (res, v')" "set v1 \<subseteq> set v'"
        by blast
      with s sub False \<open>c = cur\<close> show ?thesis by (auto simp: e)
    qed
  qed
qed

lemma scan_relations_total:
  assumes "total_search N vis0 self"
  shows "fst ` set rs \<subseteq> N \<Longrightarrow> set vis0 \<subseteq> set vis \<Longrightarrow>
         \<exists>res v'. scan_relations self cur rs vis = Some (res, v') \<and> set vis \<subseteq> set v'"
proof (induction rs arbitrary: vis)
  case Nil
  then show ?case by simp
next
  case (Cons pc rs)
  obtain parent comps where pc: "pc = (parent, comps)" by (cases pc)
  from Cons.prems(1) have pn: "parent \<in> N" and rn: "fst ` set rs \<subseteq> N" by (simp_all add: pc)
  from scan_components_total [OF assms pn Cons.prems(2), of cur comps]
  obtain res v1 where s: "scan_components self cur parent comps vis = Some (res, v1)"
    and sub: "set vis \<subseteq> set v1"
    by blast
  show ?case
  proof (cases res)
    case (Some l)
    with s sub show ?thesis by (simp add: pc)
  next
    case None
    from Cons.prems(2) sub have "set vis0 \<subseteq> set v1" by simp
    from Cons.IH [OF rn this] obtain res' v' where
      "scan_relations self cur rs v1 = Some (res', v')" "set v1 \<subseteq> set v'"
      by blast
    with s sub None show ?thesis by (auto simp: pc)
  qed
qed

lemma find_level_total:
  assumes fin: "finite N" and keys: "fst ` set rels \<subseteq> N"
  shows "p \<in> N \<Longrightarrow> card (N - set v) < n \<Longrightarrow>
         \<exists>l v'. find_level n rels plan p v = Some (l, v') \<and> set v \<subseteq> set v'"
proof (induction n arbitrary: p v)
  case 0
  then show ?case by simp
next
  case (Suc n)
  show ?case
  proof (cases "p \<in> set v")
    case True
    then show ?thesis by simp
  next
    case False
    let ?v1 = "p # v"
    have "p \<in> N - set v" using Suc.prems(1) False by simp
    moreover have "N - set ?v1 = (N - set v) - {p}" by auto
    moreover have "finite (N - set v)" using fin by simp
    ultimately have c1: "card (N - set ?v1) < card (N - set v)"
      by (metis card_Diff1_less)
    with Suc.prems(2) have c: "card (N - set ?v1) < n" by simp
    have t: "total_search N ?v1 (find_level n rels plan)"
      unfolding total_search_def
    proof (intro allI impI)
      fix q w assume a: "q \<in> N \<and> set ?v1 \<subseteq> set w"
      then have "N - set w \<subseteq> N - set ?v1" by auto
      then have "card (N - set w) \<le> card (N - set ?v1)"
        using fin by (intro card_mono) simp_all
      with c have "card (N - set w) < n" by simp
      from Suc.IH [OF _ this] a
      show "\<exists>l v'. find_level n rels plan q w = Some (l, v') \<and> set w \<subseteq> set v'" by blast
    qed
    from scan_relations_total [OF t keys, of ?v1 p]
    obtain res v' where s: "scan_relations (find_level n rels plan) p rels ?v1 = Some (res, v')"
      and sub: "set ?v1 \<subseteq> set v'"
      by auto
    then show ?thesis using False by (cases res) (auto simp: Let_def)
  qed
qed

lemma find_level_enough:
  assumes "length rels + 2 \<le> n"
  shows "\<exists>l v. find_level n rels plan m [] = Some (l, v)"
proof -
  let ?N = "insert m (fst ` set rels)"
  have "card (fst ` set rels) \<le> length rels"
    by (metis card_image_le card_length le_trans List.finite_set)
  moreover have "card ?N \<le> Suc (card (fst ` set rels))"
    by (simp add: card_insert_if)
  ultimately have "card ?N \<le> length rels + 1" by simp
  with assms have "card (?N - set []) < n" by simp
  from find_level_total [of ?N rels m "[]" n plan, OF _ _ _ this] show ?thesis by auto
qed

text \<open>
  Claim C9, as amended. For every material and every relations, cyclic ones included,
  \<^verbatim>\<open>_get_material_level\<close> returns once the depth allowed is the number of parents in
  the relations plus two (the visited set lets no material be searched twice). A
  material that is itself a code of the plan gets level 0. For any other material the
  level is the number of hops of a parent chain from the material up to a code of the
  plan, plus one, when such a chain exists (the chain is the one the search finds, which
  need not be the shortest), and 999 when no parent chain reaches a code of the plan.
\<close>

theorem get_material_level_chain:
  assumes "length rels + 2 \<le> n"
  shows "\<exists>level. get_material_level n rels plan m = Some level
           \<and> (m \<in> set plan \<longrightarrow> level = 0)
           \<and> (m \<notin> set plan \<longrightarrow>
                (if \<exists>k. reaches_plan rels plan m k
                 then \<exists>k. reaches_plan rels plan m k \<and> level = int k + 1
                 else level = 999))"
proof (cases "m \<in> set plan")
  case True
  then show ?thesis by (simp add: get_material_level_def)
next
  case False
  from find_level_enough [OF assms, of plan m]
  obtain l v where f: "find_level n rels plan m [] = Some (l, v)" by blast
  show ?thesis
  proof (cases "l \<ge> 0")
    case True
    with find_level_sound [of rels plan n] f
    obtain k where "reaches_plan rels plan m k" "l = int k + 1"
      unfolding sound_search_def by blast
    with f False True show ?thesis by (auto simp: get_material_level_def)
  next
    case neg: False
    then have "\<not> reaches_plan rels plan m k" for k
      using find_level_no_chain [OF f] by simp
    with f False neg show ?thesis by (simp add: get_material_level_def)
  qed
qed

lemmas level_eval = get_material_level_def Let_def

text \<open>
  The amended claim C9 on relations with a cycle between A and B, where B has the
  component C: with A in the plan, C is two hops away and gets level 3, and A itself
  level 0; with a plan that no chain reaches, A gets 999.
\<close>

theorem get_material_level_chain_witness:
  "length [(''A'', [(''B'', 1)]), (''B'', [(''A'', 1), (''C'', 1)])] + 2 \<le> (4::nat)
   \<and> get_material_level 4 [(''A'', [(''B'', 1)]), (''B'', [(''A'', 1), (''C'', 1)])] [''A''] ''C''
       = Some 3
   \<and> parent_chain [(''A'', [(''B'', 1)]), (''B'', [(''A'', 1), (''C'', 1)])] [''C'', ''B'', ''A'']
   \<and> get_material_level 4 [(''A'', [(''B'', 1)]), (''B'', [(''A'', 1), (''C'', 1)])] [''Z''] ''A''
       = Some 999
   \<and> get_material_level 4 [(''A'', [(''B'', 1)]), (''B'', [(''A'', 1), (''C'', 1)])] [''A''] ''A''
       = Some 0"
  using get_material_level_chain
    [of "[(''A'', [(''B'', 1)]), (''B'', [(''A'', 1), (''C'', 1)])]" 4 "[''A'']" "''C''"]
  by (simp add: level_eval is_parent_def eval_nat_numeral)

text \<open>
  Claim C9 as it is stated fails for a material that is itself in the plan: B is a
  component of the plan code A, one hop away, and is in the plan too; its level is 0,
  not 2.
\<close>

theorem get_material_level_plan_counterexample:
  "parent_chain [(''A'', [(''B'', 1)])] [''B'', ''A'']
   \<and> ''A'' \<in> set [''A'', ''B'']
   \<and> get_material_level 3 [(''A'', [(''B'', 1)])] [''A'', ''B''] ''B'' = Some 0"
  by (simp add: level_eval is_parent_def)


end
